theory Spec2Isabelle
  imports Complex_Main "HOL-Library.Sublist"
begin

section \<open>Data model of the TextFlow engine\<close>

text \<open>
  The repository holds two copies of the \<^verbatim>\<open>TextFlow\<close> class:
  the one in \<^verbatim>\<open>src/js/intro.js\<close> (after the page script), and the variant in
  \<^verbatim>\<open>src/js/text-flow-intro.js\<close>.  Both are embedded here.  Definitions without a
  prefix follow \<^verbatim>\<open>src/js/intro.js\<close>; definitions prefixed \<^verbatim>\<open>tfi_\<close> follow
  \<^verbatim>\<open>src/js/text-flow-intro.js\<close>.

  JavaScript numbers are modelled as exact rationals (rounding of IEEE doubles is not
  modelled); the one place where the source can divide by zero is modelled with explicit
  infinities and NaN.  A string is a list of code units below 256.
\<close>

type_synonym px = rat

datatype block_type = Heading | Paragraph

text \<open>A value of the JSON content document.\<close>

datatype json =
    JNull
  | JBool bool
  | JNum rat
  | JStr string
  | JArr "json list"
  | JObj "(string \<times> json) list"

text \<open>
  A canonical block, as \<^verbatim>\<open>buildBlocks\<close> pushes it.  The \<^verbatim>\<open>elFactory\<close> closure of the
  source is the function \<open>elFactory\<close> below; a heading's closure captures the heading's
  own text, which no code path ever changes.
\<close>

record block =
  bid :: json
  btype :: block_type
  level :: "rat option"
  btext :: string
  keepWithNext :: bool
  orphanProtection :: rat

text \<open>A DOM element created by \<^verbatim>\<open>createHeading\<close> (tag level, text) or \<^verbatim>\<open>createParagraph\<close>.\<close>

datatype element = HeadingEl rat string | ParagraphEl string

text \<open>\<^verbatim>\<open>x || d\<close> on numbers: zero is falsy.\<close>

definition js_or :: "rat \<Rightarrow> rat \<Rightarrow> rat" where
  "js_or x d = (if x = 0 then d else x)"

text \<open>\<^verbatim>\<open>Math.min(Math.max(Number(level || 2), 2), 4)\<close>; an absent level is \<^verbatim>\<open>undefined\<close>.\<close>

definition createHeading :: "rat option \<Rightarrow> string \<Rightarrow> element" where
  "createHeading lv t =
     HeadingEl (min (max (js_or (case lv of None \<Rightarrow> 0 | Some l \<Rightarrow> l) 2) 2) 4) t"

definition createParagraph :: "string \<Rightarrow> element" where
  "createParagraph t = ParagraphEl t"

text \<open>
  \<^verbatim>\<open>block.elFactory(t)\<close>: a heading ignores its argument, a paragraph renders the text
  it is given.
\<close>

definition elFactory :: "block \<Rightarrow> string \<Rightarrow> element" where
  "elFactory b t =
     (case btype b of
        Heading \<Rightarrow> createHeading (level b) (btext b)
      | Paragraph \<Rightarrow> createParagraph t)"

text \<open>Assignment to \<^verbatim>\<open>el.textContent\<close>.\<close>

fun setTextContent :: "element \<Rightarrow> string \<Rightarrow> element" where
  "setTextContent (HeadingEl l _) t = HeadingEl l t"
| "setTextContent (ParagraphEl _) t = ParagraphEl t"

text \<open>
  The measurement facility is the browser's layout engine.  It is a parameter of the
  model: \<open>measureHeight w nodes\<close> is what \<^verbatim>\<open>measureHeight(nodes)\<close> returns while the
  sandbox is \<open>w\<close> pixels wide, \<open>rectHeight w el\<close> is
  \<^verbatim>\<open>measureP.getBoundingClientRect().height\<close> of the probe element inside the sandbox,
  and \<open>getLineHeightPx w el\<close> is the method of the same name.  The two height
  measurements are different DOM reads and nothing forces them to agree.
\<close>

record layout =
  measureHeight :: "px \<Rightarrow> element list \<Rightarrow> px"
  rectHeight :: "px \<Rightarrow> element \<Rightarrow> px"
  getLineHeightPx :: "px \<Rightarrow> element \<Rightarrow> px"

text \<open>
  What \<^verbatim>\<open>getRegionMetrics\<close> reads for a region, and whether the region still has
  its \<^verbatim>\<open>.flow-content\<close> wrapper.
\<close>

record region =
  wrap :: bool
  availableHeight :: px
  innerWidth :: px

section \<open>Words of a text\<close>

text \<open>The code units that the regular expression class \<^verbatim>\<open>\s\<close> matches, below 256.\<close>

definition js_space :: "char \<Rightarrow> bool" where
  "js_space c = (c \<in> set [CHR 0x09, CHR 0x0A, CHR 0x0B, CHR 0x0C, CHR 0x0D, CHR 0x20, CHR 0xA0])"

text \<open>
  \<^verbatim>\<open>text.split(/\s+/)\<close>: the pieces between maximal runs of white space, empty
  pieces at either end included.  \<open>cur\<close> is the piece being read.
\<close>

function split_ws :: "string \<Rightarrow> string \<Rightarrow> string list" where
  "split_ws cur [] = [cur]"
| "split_ws cur (c # cs) =
     (if js_space c then cur # split_ws [] (dropWhile js_space cs)
      else split_ws (cur @ [c]) cs)"
  by pat_completeness auto
termination
  by (relation "measure (\<lambda>(cur, s). length s)")
     (auto simp: length_dropWhile_le less_Suc_eq_le)

text \<open>\<^verbatim>\<open>text.split(/\s+/).filter(Boolean)\<close>\<close>

definition words_of :: "string \<Rightarrow> string list" where
  "words_of t = filter (\<lambda>w. w \<noteq> []) (split_ws [] t)"

text \<open>\<^verbatim>\<open>words.join(' ')\<close>\<close>

fun join_sp :: "string list \<Rightarrow> string" where
  "join_sp [] = []"
| "join_sp [w] = w"
| "join_sp (w # v # ws) = w @ CHR 0x20 # join_sp (v # ws)"

text \<open>A word: not empty, and free of white space.\<close>

definition word_ok :: "string \<Rightarrow> bool" where
  "word_ok w = (w \<noteq> [] \<and> (\<forall>c\<in>set w. \<not> js_space c))"

section \<open>Paragraph splitting (src/js/intro.js)\<close>

record split_result =
  fitsWords :: int
  firstText :: string
  restText :: string

text \<open>
  The binary search loop of \<^verbatim>\<open>splitParagraph\<close>: \<open>lo\<close>, \<open>hi\<close> and \<open>best\<close> are
  the loop's variables, \<open>measureP\<close> the probe element.
\<close>

function maxFittingWords ::
  "layout \<Rightarrow> px \<Rightarrow> element \<Rightarrow> string list \<Rightarrow> px \<Rightarrow> int \<Rightarrow> int \<Rightarrow> int \<Rightarrow> int" where
  "maxFittingWords orc w measureP ws avail lo hi best =
     (if lo \<le> hi then
        (let mid = (lo + hi) div 2;
             h = rectHeight orc w (setTextContent measureP (join_sp (take (nat mid) ws)))
         in if h \<le> avail then maxFittingWords orc w measureP ws avail (mid + 1) hi mid
            else maxFittingWords orc w measureP ws avail lo (mid - 1) best)
      else best)"
  by pat_completeness auto
termination
  by (relation "measure (\<lambda>(orc, w, measureP, ws, avail, lo, hi, best). nat (hi + 1 - lo))")
     auto

text \<open>\<^verbatim>\<open>Math.max(1, Number(block.orphanProtection || 2))\<close>\<close>

definition minLines :: "block \<Rightarrow> rat" where
  "minLines b = max 1 (js_or (orphanProtection b) 2)"

definition splitParagraph :: "layout \<Rightarrow> px \<Rightarrow> block \<Rightarrow> px \<Rightarrow> split_result" where
  "splitParagraph orc w b avail =
     (let ws = words_of (btext b) in
      if ws = [] then \<lparr>fitsWords = 0, firstText = [], restText = []\<rparr>
      else
        (let measureP = elFactory b [];
             lineHeight = getLineHeightPx orc w measureP;
             minHeight = lineHeight * minLines b
         in if avail < minHeight then \<lparr>fitsWords = 0, firstText = [], restText = btext b\<rparr>
            else
              (let best = maxFittingWords orc w measureP ws avail 1 (int (length ws)) 0
               in if best = 0 then \<lparr>fitsWords = 0, firstText = [], restText = btext b\<rparr>
                  else
                    (let fragHeight =
                           rectHeight orc w (setTextContent measureP (join_sp (take (nat best) ws)))
                     in if fragHeight < minHeight
                        then \<lparr>fitsWords = 0, firstText = [], restText = btext b\<rparr>
                        else \<lparr>fitsWords = best,
                              firstText = join_sp (take (nat best) ws),
                              restText = join_sp (drop (nat best) ws)\<rparr>))))"

declare maxFittingWords.simps [simp del]

section \<open>Paragraph splitting (src/js/text-flow-intro.js)\<close>

text \<open>
  The variant divides by the line height, which is zero for a computed line height of
  \<^verbatim>\<open>0px\<close>.  Quotients are therefore JavaScript numbers with infinities and NaN.
\<close>

datatype jsnum = Fin rat | PosInf | NegInf | NaN

definition js_div :: "rat \<Rightarrow> rat \<Rightarrow> jsnum" where
  "js_div a b =
     (if b \<noteq> 0 then Fin (a / b)
      else if 0 < a then PosInf else if a < 0 then NegInf else NaN)"

fun js_floor :: "jsnum \<Rightarrow> jsnum" where
  "js_floor (Fin x) = Fin (of_int \<lfloor>x\<rfloor>)"
| "js_floor x = x"

fun js_ceil :: "jsnum \<Rightarrow> jsnum" where
  "js_ceil (Fin x) = Fin (of_int \<lceil>x\<rceil>)"
| "js_ceil x = x"

fun js_le :: "jsnum \<Rightarrow> jsnum \<Rightarrow> bool" where
  "js_le NaN _ = False"
| "js_le _ NaN = False"
| "js_le (Fin a) (Fin b) = (a \<le> b)"
| "js_le NegInf _ = True"
| "js_le _ PosInf = True"
| "js_le _ _ = False"

fun js_lt :: "jsnum \<Rightarrow> jsnum \<Rightarrow> bool" where
  "js_lt NaN _ = False"
| "js_lt _ NaN = False"
| "js_lt (Fin a) (Fin b) = (a < b)"
| "js_lt PosInf _ = False"
| "js_lt _ NegInf = False"
| "js_lt _ _ = True"

text \<open>
  The word-by-word loop of the variant: \<open>rest\<close> are the words from index \<open>i\<close> on,
  \<open>bestWordCount\<close> is \<open>i\<close> on entry and the loop stops at the first word that exceeds
  the line limit.
\<close>

fun tfi_grow ::
  "layout \<Rightarrow> px \<Rightarrow> element \<Rightarrow> px \<Rightarrow> jsnum \<Rightarrow> string list \<Rightarrow> string \<Rightarrow> string \<Rightarrow> int
     \<Rightarrow> string \<times> int" where
  "tfi_grow orc w measureP lineHeight maxLines [] currentText bestText bestWordCount =
     (bestText, bestWordCount)"
| "tfi_grow orc w measureP lineHeight maxLines (wd # rest) currentText bestText bestWordCount =
     (let testText = currentText @ (if currentText \<noteq> [] then [CHR 0x20] else []) @ wd;
          currentHeight = rectHeight orc w (setTextContent measureP testText);
          currentLines = js_ceil (js_div currentHeight lineHeight)
      in if js_le currentLines maxLines
         then tfi_grow orc w measureP lineHeight maxLines rest testText testText (bestWordCount + 1)
         else (bestText, bestWordCount))"

definition tfi_splitParagraph :: "layout \<Rightarrow> px \<Rightarrow> block \<Rightarrow> px \<Rightarrow> split_result" where
  "tfi_splitParagraph orc w b avail =
     (let ws = words_of (btext b) in
      if ws = [] then \<lparr>fitsWords = 0, firstText = [], restText = []\<rparr>
      else
        (let measureP = elFactory b [];
             lineHeight = getLineHeightPx orc w measureP;
             maxLines = js_floor (js_div avail lineHeight)
         in if js_lt maxLines (Fin 1)
            then \<lparr>fitsWords = 0, firstText = [], restText = btext b\<rparr>
            else
              (case tfi_grow orc w measureP lineHeight maxLines ws [] [] 0 of
                 (bestText, bestWordCount) \<Rightarrow>
                   (if bestWordCount = 0 \<and>
                       rectHeight orc w (setTextContent measureP (hd ws)) \<le> avail
                    then \<lparr>fitsWords = 1, firstText = hd ws,
                          restText = join_sp (drop 1 ws)\<rparr>
                    else \<lparr>fitsWords = bestWordCount, firstText = bestText,
                          restText = join_sp (drop (nat bestWordCount) ws)\<rparr>))))"

section \<open>The flow loop\<close>

text \<open>
  What one iteration of the \<^verbatim>\<open>while (queue.length > 0)\<close> loop does: append a
  keep-with-next pair, a single block or a paragraph fragment (each with the height that
  was measured for it, and for a fragment the text left in the queue head), or
  \<^verbatim>\<open>break\<close>.
\<close>

datatype action =
    PlacePair element element px
  | PlaceSingle element px
  | PlaceFragment element px string
  | Abandon

text \<open>The loop body of \<^verbatim>\<open>flow\<close> in src/js/intro.js; \<open>b\<close> is \<^verbatim>\<open>queue[0]\<close>.\<close>

definition step :: "layout \<Rightarrow> px \<Rightarrow> px \<Rightarrow> block \<Rightarrow> block list \<Rightarrow> action" where
  "step orc w remaining b q =
     (if remaining \<le> 0 then Abandon
      else if keepWithNext b \<and> q \<noteq> [] then
        (let elA = elFactory b (btext b);
             elB = elFactory (hd q) (btext (hd q));
             heightTogether = measureHeight orc w [elA, elB]
         in if heightTogether \<le> remaining then PlacePair elA elB heightTogether
            else Abandon)
      else
        (let el = elFactory b (btext b);
             h = measureHeight orc w [el]
         in if h \<le> remaining then PlaceSingle el h
            else if btype b \<noteq> Paragraph then Abandon
            else
              (let split = splitParagraph orc w b remaining
               in if fitsWords split = 0 then Abandon
                  else
                    (let fragEl = elFactory b (firstText split);
                         fragHeight = measureHeight orc w [fragEl]
                     in if fragHeight \<le> remaining
                        then PlaceFragment fragEl fragHeight (restText split)
                        else Abandon))))"

text \<open>The loop body of \<^verbatim>\<open>flow\<close> in src/js/text-flow-intro.js: no keep-with-next branch.\<close>

definition tfi_step :: "layout \<Rightarrow> px \<Rightarrow> px \<Rightarrow> block \<Rightarrow> block list \<Rightarrow> action" where
  "tfi_step orc w remaining b q =
     (if remaining \<le> 0 then Abandon
      else
        (let el = elFactory b (btext b);
             h = measureHeight orc w [el]
         in if h \<le> remaining then PlaceSingle el h
            else if btype b \<noteq> Paragraph then Abandon
            else
              (let split = tfi_splitParagraph orc w b remaining
               in if fitsWords split = 0 then Abandon
                  else
                    (let fragEl = elFactory b (firstText split);
                         fragHeight = measureHeight orc w [fragEl]
                     in if fragHeight \<le> remaining
                        then PlaceFragment fragEl fragHeight (restText split)
                        else Abandon))))"

text \<open>The two engines share the text of the surrounding loops.\<close>

datatype engine = TextFlow | TextFlowIntro

definition loopBody :: "engine \<Rightarrow> layout \<Rightarrow> px \<Rightarrow> px \<Rightarrow> block \<Rightarrow> block list \<Rightarrow> action" where
  "loopBody e = (case e of TextFlow \<Rightarrow> step | TextFlowIntro \<Rightarrow> tfi_step)"

definition splitOf :: "engine \<Rightarrow> layout \<Rightarrow> px \<Rightarrow> block \<Rightarrow> px \<Rightarrow> split_result" where
  "splitOf e = (case e of TextFlow \<Rightarrow> splitParagraph | TextFlowIntro \<Rightarrow> tfi_splitParagraph)"

section \<open>Words survive splitting and joining\<close>

text \<open>
  The loop for a region ends because every iteration that does not leave the loop
  either shortens the queue or leaves fewer words in its head.  The facts of this
  section establish the second: the words of a text joined by single spaces split into
  the same words again, and a split that offers a fragment offers at least one word.
\<close>

lemma split_ws_nospace:
  "\<forall>c\<in>set w. \<not> js_space c \<Longrightarrow> split_ws cur (w @ s) = split_ws (cur @ w) s"
  by (induction w arbitrary: cur) auto

lemma split_ws_pieces:
  "\<forall>c\<in>set cur. \<not> js_space c \<Longrightarrow> v \<in> set (split_ws cur s) \<Longrightarrow> \<forall>c\<in>set v. \<not> js_space c"
proof (induction cur s rule: split_ws.induct)
  case (1 cur)
  then show ?case by simp
next
  case (2 cur c cs)
  show ?case
  proof (cases "js_space c")
    case True
    then have "v = cur \<or> v \<in> set (split_ws [] (dropWhile js_space cs))"
      using "2.prems"(2) by simp
    then show ?thesis
    proof
      assume "v = cur"
      then show ?thesis using "2.prems"(1) by simp
    next
      assume "v \<in> set (split_ws [] (dropWhile js_space cs))"
      moreover have "\<forall>d\<in>set []. \<not> js_space d" by simp
      ultimately show ?thesis using "2.IH"(1)[OF True] by blast
    qed
  next
    case False
    then have "v \<in> set (split_ws (cur @ [c]) cs)"
      using "2.prems"(2) by simp
    moreover have "\<forall>d\<in>set (cur @ [c]). \<not> js_space d"
      using "2.prems"(1) False by simp
    ultimately show ?thesis using "2.IH"(2)[OF False] by blast
  qed
qed

lemma words_of_ok: "v \<in> set (words_of t) \<Longrightarrow> word_ok v"
  using split_ws_pieces[of "[]" v t] by (auto simp: words_of_def word_ok_def)

lemma join_sp_Cons: "join_sp (v # ws) = v @ (if ws = [] then [] else CHR 0x20 # join_sp ws)"
  by (cases ws) auto

lemma words_of_join_sp: "\<forall>w\<in>set ws. word_ok w \<Longrightarrow> words_of (join_sp ws) = ws"
proof (induction ws rule: join_sp.induct)
  case 1
  then show ?case by (simp add: words_of_def)
next
  case (2 w)
  then show ?case using split_ws_nospace[of w "[]" "[]"] by (simp add: words_of_def word_ok_def)
next
  case (3 w v ws)
  then obtain c v' where v: "v = c # v'" and c: "\<not> js_space c"
    by (cases v) (auto simp: word_ok_def)
  have sp: "js_space (CHR 0x20)" by (simp add: js_space_def)
  have "split_ws [] (join_sp (w # v # ws)) = split_ws w (CHR 0x20 # join_sp (v # ws))"
    using split_ws_nospace[of w "[]" "CHR 0x20 # join_sp (v # ws)"] 3(2) by (simp add: word_ok_def)
  also have "\<dots> = w # split_ws [] (dropWhile js_space (join_sp (v # ws)))"
    using sp by simp
  also have "dropWhile js_space (join_sp (v # ws)) = join_sp (v # ws)"
    using v c by (simp add: join_sp_Cons)
  finally show ?case using 3 by (simp add: words_of_def word_ok_def)
qed

lemma words_of_join_drop: "words_of (join_sp (drop n (words_of t))) = drop n (words_of t)"
proof (rule words_of_join_sp, rule ballI)
  fix v assume "v \<in> set (drop n (words_of t))"
  then have "v \<in> set (words_of t)" by (rule in_set_dropD)
  then show "word_ok v" by (rule words_of_ok)
qed

lemma words_of_join_take: "words_of (join_sp (take n (words_of t))) = take n (words_of t)"
proof (rule words_of_join_sp, rule ballI)
  fix v assume "v \<in> set (take n (words_of t))"
  then have "v \<in> set (words_of t)" by (rule in_set_takeD)
  then show "word_ok v" by (rule words_of_ok)
qed

lemma maxFittingWords_range:
  "best < lo \<Longrightarrow>
   maxFittingWords orc w mp ws avail lo hi best = best \<or>
   (lo \<le> maxFittingWords orc w mp ws avail lo hi best \<and>
    maxFittingWords orc w mp ws avail lo hi best \<le> hi)"
proof (induction orc w mp ws avail lo hi best rule: maxFittingWords.induct)
  case (1 orc w measureP ws avail lo hi best)
  show ?case
  proof (cases "lo \<le> hi")
    case False
    then show ?thesis by (simp add: maxFittingWords.simps)
  next
    case True
    define mid where "mid = (lo + hi) div 2"
    have m: "lo \<le> mid" "mid \<le> hi" using True by (auto simp: mid_def)
    show ?thesis
    proof (cases "rectHeight orc w (setTextContent measureP (join_sp (take (nat mid) ws))) \<le> avail")
      case fits: True
      have "maxFittingWords orc w measureP ws avail lo hi best
            = maxFittingWords orc w measureP ws avail (mid + 1) hi mid"
        using True fits by (subst maxFittingWords.simps) (simp add: mid_def Let_def)
      moreover have "maxFittingWords orc w measureP ws avail (mid + 1) hi mid = mid \<or>
          (mid + 1 \<le> maxFittingWords orc w measureP ws avail (mid + 1) hi mid \<and>
           maxFittingWords orc w measureP ws avail (mid + 1) hi mid \<le> hi)"
        using "1.IH"(1)[OF True mid_def refl] fits by simp
      ultimately show ?thesis using m by auto
    next
      case nofit: False
      have "maxFittingWords orc w measureP ws avail lo hi best
            = maxFittingWords orc w measureP ws avail lo (mid - 1) best"
        using True nofit by (subst maxFittingWords.simps) (simp add: mid_def Let_def)
      moreover have "maxFittingWords orc w measureP ws avail lo (mid - 1) best = best \<or>
          (lo \<le> maxFittingWords orc w measureP ws avail lo (mid - 1) best \<and>
           maxFittingWords orc w measureP ws avail lo (mid - 1) best \<le> mid - 1)"
        using "1.IH"(2)[OF True mid_def refl] nofit "1.prems" by simp
      ultimately show ?thesis using m by auto
    qed
  qed
qed

lemma splitParagraph_unfold:
  assumes "fitsWords (splitParagraph orc w b avail) \<noteq> 0"
  defines "ws \<equiv> words_of (btext b)"
  defines "mp \<equiv> elFactory b []"
  defines "best \<equiv> maxFittingWords orc w mp ws avail 1 (int (length ws)) 0"
  defines "minHeight \<equiv> getLineHeightPx orc w mp * minLines b"
  shows "ws \<noteq> []" and "minHeight \<le> avail" and "best \<noteq> 0"
    and "minHeight \<le> rectHeight orc w (setTextContent mp (join_sp (take (nat best) ws)))"
    and "splitParagraph orc w b avail =
           \<lparr>fitsWords = best, firstText = join_sp (take (nat best) ws),
            restText = join_sp (drop (nat best) ws)\<rparr>"
proof -
  have sp: "splitParagraph orc w b avail =
     (if ws = [] then \<lparr>fitsWords = 0, firstText = [], restText = []\<rparr>
      else if avail < minHeight then \<lparr>fitsWords = 0, firstText = [], restText = btext b\<rparr>
      else if best = 0 then \<lparr>fitsWords = 0, firstText = [], restText = btext b\<rparr>
      else if rectHeight orc w (setTextContent mp (join_sp (take (nat best) ws))) < minHeight
      then \<lparr>fitsWords = 0, firstText = [], restText = btext b\<rparr>
      else \<lparr>fitsWords = best, firstText = join_sp (take (nat best) ws),
            restText = join_sp (drop (nat best) ws)\<rparr>)"
    unfolding splitParagraph_def ws_def mp_def best_def minHeight_def Let_def by simp
  show a: "ws \<noteq> []" using assms(1) unfolding sp by (simp split: if_splits)
  show b: "minHeight \<le> avail" using assms(1) unfolding sp by (simp split: if_splits)
  show c: "best \<noteq> 0" using assms(1) unfolding sp by (simp split: if_splits)
  show d: "minHeight \<le> rectHeight orc w (setTextContent mp (join_sp (take (nat best) ws)))"
    using assms(1) unfolding sp by (simp split: if_splits)
  show "splitParagraph orc w b avail =
           \<lparr>fitsWords = best, firstText = join_sp (take (nat best) ws),
            restText = join_sp (drop (nat best) ws)\<rparr>"
    using a b c d unfolding sp by simp
qed

lemma splitParagraph_fits_range:
  assumes "fitsWords (splitParagraph orc w b avail) \<noteq> 0"
  shows "1 \<le> fitsWords (splitParagraph orc w b avail)"
    and "fitsWords (splitParagraph orc w b avail) \<le> int (length (words_of (btext b)))"
    and "firstText (splitParagraph orc w b avail) =
           join_sp (take (nat (fitsWords (splitParagraph orc w b avail))) (words_of (btext b)))"
    and "restText (splitParagraph orc w b avail) =
           join_sp (drop (nat (fitsWords (splitParagraph orc w b avail))) (words_of (btext b)))"
proof -
  note u = splitParagraph_unfold[OF assms]
  have r: "maxFittingWords orc w (elFactory b []) (words_of (btext b)) avail 1
             (int (length (words_of (btext b)))) 0 = 0 \<or>
           (1 \<le> maxFittingWords orc w (elFactory b []) (words_of (btext b)) avail 1
             (int (length (words_of (btext b)))) 0 \<and>
            maxFittingWords orc w (elFactory b []) (words_of (btext b)) avail 1
             (int (length (words_of (btext b)))) 0 \<le> int (length (words_of (btext b))))"
    by (rule maxFittingWords_range) simp
  show "1 \<le> fitsWords (splitParagraph orc w b avail)"
    using r u(3) by (simp add: u(5))
  show "fitsWords (splitParagraph orc w b avail) \<le> int (length (words_of (btext b)))"
    using r u(3) by (simp add: u(5))
  show "firstText (splitParagraph orc w b avail) =
           join_sp (take (nat (fitsWords (splitParagraph orc w b avail))) (words_of (btext b)))"
    by (simp add: u(5))
  show "restText (splitParagraph orc w b avail) =
           join_sp (drop (nat (fitsWords (splitParagraph orc w b avail))) (words_of (btext b)))"
    by (simp add: u(5))
qed

lemma tfi_grow_count:
  "n \<le> snd (tfi_grow orc w mp lh ml ws cur bt n) \<and>
   snd (tfi_grow orc w mp lh ml ws cur bt n) \<le> n + int (length ws)"
proof (induction ws arbitrary: cur bt n)
  case Nil
  show ?case by simp
next
  case (Cons wd rest)
  define t where "t = cur @ (if cur \<noteq> [] then [CHR 0x20] else []) @ wd"
  show ?case
  proof (cases "js_le (js_ceil (js_div (rectHeight orc w (setTextContent mp t)) lh)) ml")
    case True
    then have "tfi_grow orc w mp lh ml (wd # rest) cur bt n
               = tfi_grow orc w mp lh ml rest t t (n + 1)"
      by (simp add: t_def Let_def)
    then show ?thesis using Cons.IH[where cur=t and bt=t and n="n + 1"] by simp
  next
    case False
    then have "tfi_grow orc w mp lh ml (wd # rest) cur bt n = (bt, n)"
      by (simp add: t_def Let_def)
    then show ?thesis by simp
  qed
qed

lemma tfi_splitParagraph_fits_range:
  assumes "fitsWords (tfi_splitParagraph orc w b avail) \<noteq> 0"
  shows "1 \<le> fitsWords (tfi_splitParagraph orc w b avail)"
    and "fitsWords (tfi_splitParagraph orc w b avail) \<le> int (length (words_of (btext b)))"
    and "restText (tfi_splitParagraph orc w b avail) =
           join_sp (drop (nat (fitsWords (tfi_splitParagraph orc w b avail))) (words_of (btext b)))"
proof -
  define ws where "ws = words_of (btext b)"
  define mp where "mp = elFactory b []"
  define lh where "lh = getLineHeightPx orc w mp"
  define ml where "ml = js_floor (js_div avail lh)"
  define g where "g = tfi_grow orc w mp lh ml ws [] [] 0"
  have k: "0 \<le> snd g" "snd g \<le> int (length ws)"
    using tfi_grow_count[of 0 orc w mp lh ml ws "[]" "[]"] by (simp_all add: g_def)
  have ne: "ws \<noteq> []" and nl: "\<not> js_lt ml (Fin 1)"
    using assms
    by (auto simp: tfi_splitParagraph_def Let_def ws_def mp_def lh_def ml_def split: if_splits)
  have eq: "tfi_splitParagraph orc w b avail =
      (if snd g = 0 \<and> rectHeight orc w (setTextContent mp (hd ws)) \<le> avail
       then \<lparr>fitsWords = 1, firstText = hd ws, restText = join_sp (drop 1 ws)\<rparr>
       else \<lparr>fitsWords = snd g, firstText = fst g,
             restText = join_sp (drop (nat (snd g)) ws)\<rparr>)"
    using ne nl
    by (simp add: tfi_splitParagraph_def Let_def ws_def[symmetric] mp_def[symmetric]
        lh_def[symmetric] ml_def[symmetric] g_def[symmetric] case_prod_beta)
  have len: "1 \<le> int (length ws)" using ne by (cases ws) auto
  show "1 \<le> fitsWords (tfi_splitParagraph orc w b avail)"
    using assms k unfolding eq by (auto split: if_splits)
  show "fitsWords (tfi_splitParagraph orc w b avail) \<le> int (length (words_of (btext b)))"
    using k len unfolding eq ws_def[symmetric] by (auto split: if_splits)
  show "restText (tfi_splitParagraph orc w b avail) =
           join_sp (drop (nat (fitsWords (tfi_splitParagraph orc w b avail))) (words_of (btext b)))"
    unfolding eq ws_def[symmetric] by (auto split: if_splits)
qed

lemma loopBody_fragment_shrinks:
  assumes "loopBody e orc w remaining b q = PlaceFragment el h rest"
  shows "length (words_of rest) < length (words_of (btext b))"
proof (cases e)
  case TextFlow
  with assms have f: "fitsWords (splitParagraph orc w b remaining) \<noteq> 0"
    and r: "rest = restText (splitParagraph orc w b remaining)"
    by (auto simp: loopBody_def step_def Let_def split: if_splits)
  show ?thesis
    using splitParagraph_fits_range[OF f] by (simp add: r words_of_join_drop)
next
  case TextFlowIntro
  with assms have f: "fitsWords (tfi_splitParagraph orc w b remaining) \<noteq> 0"
    and r: "rest = restText (tfi_splitParagraph orc w b remaining)"
    by (auto simp: loopBody_def tfi_step_def Let_def split: if_splits)
  show ?thesis
    using tfi_splitParagraph_fits_range[OF f] by (simp add: r words_of_join_drop)
qed

section \<open>Filling one region, and the pass over all regions\<close>

text \<open>One more append in front of what the rest of the loop appends.\<close>

definition addPlaced ::
  "element list \<Rightarrow> element list list \<times> px \<times> block list
     \<Rightarrow> element list list \<times> px \<times> block list" where
  "addPlaced g r = (case r of (placed, used, queue) \<Rightarrow> (g # placed, used, queue))"

text \<open>
  The \<^verbatim>\<open>while (queue.length > 0)\<close> loop for one region.  The result is the list of
  appends to the region (one entry per measured placement, in order), the final value
  of \<^verbatim>\<open>used\<close>, and the queue as the loop leaves it.
\<close>

function fillRegion ::
  "engine \<Rightarrow> layout \<Rightarrow> px \<Rightarrow> px \<Rightarrow> px \<Rightarrow> block list
     \<Rightarrow> element list list \<times> px \<times> block list" where
  "fillRegion e orc avail w used [] = ([], used, [])"
| "fillRegion e orc avail w used (b # q) =
     (case loopBody e orc w (avail - used) b q of
        Abandon \<Rightarrow> ([], used, b # q)
      | PlacePair elA elB h \<Rightarrow>
          addPlaced [elA, elB] (fillRegion e orc avail w (used + h) (tl q))
      | PlaceSingle el h \<Rightarrow>
          addPlaced [el] (fillRegion e orc avail w (used + h) q)
      | PlaceFragment el h rest \<Rightarrow>
          addPlaced [el] (fillRegion e orc avail w (used + h) (b\<lparr>btext := rest\<rparr> # q)))"
  by pat_completeness auto
termination
proof (relation "measure (\<lambda>(e, orc, avail, w, used, q).
          sum_list (map (\<lambda>b. Suc (length (words_of (btext b)))) q))", goal_cases)
  case 1
  show ?case by simp
next
  case (2 e orc avail w used b q elA elB h)
  show ?case by (cases q) simp_all
next
  case (3 e orc avail w used b q el h)
  show ?case by simp
next
  case (4 e orc avail w used b q el h rest)
  then show ?case using loopBody_fragment_shrinks[of e orc w "avail - used" b q el h rest]
    by simp
qed

declare fillRegion.simps [simp del]

text \<open>
  The \<^verbatim>\<open>for\<close> loop over the regions: one list of placements per region, and the
  queue after the last region.  Only src/js/intro.js looks for a wrapper element.
\<close>

fun flowRegions ::
  "engine \<Rightarrow> layout \<Rightarrow> block list \<Rightarrow> region list
     \<Rightarrow> element list list list \<times> block list" where
  "flowRegions e orc queue [] = ([], queue)"
| "flowRegions e orc queue (r # rs) =
     (if e = TextFlow \<and> \<not> wrap r then
        (case flowRegions e orc queue rs of (out, q') \<Rightarrow> ([] # out, q'))
      else if availableHeight r \<le> 0 \<or> innerWidth r \<le> 0 then
        (case flowRegions e orc queue rs of (out, q') \<Rightarrow> ([] # out, q'))
      else
        (case fillRegion e orc (availableHeight r) (innerWidth r) 0 queue of
           (placed, used, q1) \<Rightarrow>
             (case flowRegions e orc q1 rs of (out, q') \<Rightarrow> (placed # out, q'))))"

text \<open>
  \<^verbatim>\<open>flow()\<close>: \<open>None\<close> is the early return (no blocks or no regions; the regions are
  not cleared).  Otherwise every region has been cleared, the queue is a list of copies
  of the blocks, and the result is what each region received and what is left in the
  queue.
\<close>

definition flow ::
  "engine \<Rightarrow> layout \<Rightarrow> block list \<Rightarrow> region list
     \<Rightarrow> (element list list list \<times> block list) option" where
  "flow e orc blocks regions =
     (if blocks = [] \<or> regions = [] then None
      else Some (flowRegions e orc (map (\<lambda>b. b\<lparr>btext := btext b\<rparr>) blocks) regions))"

section \<open>The Block Builder\<close>

text \<open>
  A raw block record of the content document.  A field that is absent is \<open>None\<close>
  (\<^verbatim>\<open>undefined\<close>).  The fields whose JavaScript type the builder inspects are JSON
  values; \<^verbatim>\<open>text\<close> and \<^verbatim>\<open>level\<close> are taken at the types the README's content format
  gives them (a string, a number).
\<close>

record raw_block =
  rb_type :: "json option"
  rb_id :: "json option"
  rb_level :: "rat option"
  rb_text :: "string option"
  rb_keepWithNext :: "json option"
  rb_orphanProtection :: "json option"

text \<open>Truthiness of a JSON value: \<^verbatim>\<open>Boolean(v)\<close>.\<close>

fun truthy :: "json \<Rightarrow> bool" where
  "truthy JNull = False"
| "truthy (JBool b) = b"
| "truthy (JNum n) = (n \<noteq> 0)"
| "truthy (JStr s) = (s \<noteq> [])"
| "truthy (JArr _) = True"
| "truthy (JObj _) = True"

text \<open>The decimal digits of an array index, for the template \<^verbatim>\<open>`blk-${index}`\<close>.\<close>

fun decimal :: "nat \<Rightarrow> string" where
  "decimal n =
     (if n < 10 then [char_of (48 + n)]
      else decimal (n div 10) @ [char_of (48 + n mod 10)])"

declare decimal.simps [simp del]

text \<open>
  The callback of \<^verbatim>\<open>json.blocks.forEach\<close> in \<^verbatim>\<open>buildBlocks\<close>: \<open>Some\<close> is the block
  it pushes, \<open>None\<close> an unsupported type that is skipped.
\<close>

definition buildBlock :: "nat \<Rightarrow> raw_block \<Rightarrow> block option" where
  "buildBlock index b =
     (let ty = rb_type b;
          id = (case rb_id b of
                  Some v \<Rightarrow> if truthy v then v else JStr (''blk-'' @ decimal index)
                | None \<Rightarrow> JStr (''blk-'' @ decimal index));
          kwn = (case rb_keepWithNext b of Some v \<Rightarrow> truthy v | None \<Rightarrow> False);
          op = (case rb_orphanProtection b of Some (JNum n) \<Rightarrow> n | _ \<Rightarrow> 2);
          txt = (case rb_text b of Some t \<Rightarrow> t | None \<Rightarrow> []);
          lv = (case rb_level b of
                  Some l \<Rightarrow> if l \<noteq> 0 then Some l
                           else if ty = Some (JStr ''heading'') then Some 2 else None
                | None \<Rightarrow> if ty = Some (JStr ''heading'') then Some 2 else None)
      in if ty = Some (JStr ''heading'') then
           Some \<lparr>bid = id, btype = Heading, level = lv, btext = txt,
                 keepWithNext = kwn, orphanProtection = op\<rparr>
         else if ty = Some (JStr ''paragraph'') then
           Some \<lparr>bid = id, btype = Paragraph, level = None, btext = txt,
                 keepWithNext = kwn, orphanProtection = op\<rparr>
         else None)"

fun buildFrom :: "nat \<Rightarrow> raw_block list \<Rightarrow> block list" where
  "buildFrom index [] = []"
| "buildFrom index (b # bs) =
     (case buildBlock index b of
        Some blk \<Rightarrow> blk # buildFrom (Suc index) bs
      | None \<Rightarrow> buildFrom (Suc index) bs)"

definition buildBlocks :: "raw_block list \<Rightarrow> block list" where
  "buildBlocks bs = buildFrom 0 bs"

section \<open>The pass over a store of block objects\<close>

text \<open>
  The model so far passes blocks by value.  Whether a pass can change the stored block
  list depends on which objects the queue shares with it, so the pass is modelled once
  more over a store of block objects: \<open>heap\<close> maps a reference to the object it refers
  to, references from \<open>nextRef\<close> on are not allocated, and \<open>this_blocks\<close> is the array
  \<^verbatim>\<open>this.blocks\<close>.  \<open>copyBlocks\<close> is
  \<^verbatim>\<open>this.blocks.map((b) => ({ ...b, text: b.text }))\<close>: every element is a new object.
\<close>

type_synonym ref = nat

text \<open>The TextFlow object, as far as a pass reads or writes it, and the object store.\<close>

record textflow =
  heap :: "ref \<Rightarrow> block"
  nextRef :: ref
  this_blocks :: "ref list"

fun copyBlocks ::
  "(ref \<Rightarrow> block) \<Rightarrow> ref \<Rightarrow> ref list \<Rightarrow> (ref \<Rightarrow> block) \<times> ref \<times> ref list" where
  "copyBlocks h n [] = (h, n, [])"
| "copyBlocks h n (a # as) =
     (case copyBlocks (h(n := (h a)\<lparr>btext := btext (h a)\<rparr>)) (Suc n) as of
        (h', n', queue) \<Rightarrow> (h', n', n # queue))"

text \<open>
  The loops of \<^verbatim>\<open>flow()\<close> once more, with a queue of references: the loop body reads
  the objects that the queue refers to, and placing a fragment assigns the remainder to
  the \<^verbatim>\<open>text\<close> field of the object at the head of the queue.
\<close>

definition addPlacedRef ::
  "element list \<Rightarrow> element list list \<times> px \<times> (ref \<Rightarrow> block) \<times> ref list
     \<Rightarrow> element list list \<times> px \<times> (ref \<Rightarrow> block) \<times> ref list" where
  "addPlacedRef g r = (case r of (placed, used, h, queue) \<Rightarrow> (g # placed, used, h, queue))"

function fillRegionRef ::
  "engine \<Rightarrow> layout \<Rightarrow> px \<Rightarrow> px \<Rightarrow> px \<Rightarrow> (ref \<Rightarrow> block) \<Rightarrow> ref list
     \<Rightarrow> element list list \<times> px \<times> (ref \<Rightarrow> block) \<times> ref list" where
  "fillRegionRef e orc avail w used h [] = ([], used, h, [])"
| "fillRegionRef e orc avail w used h (a # q) =
     (case loopBody e orc w (avail - used) (h a) (map h q) of
        Abandon \<Rightarrow> ([], used, h, a # q)
      | PlacePair elA elB ht \<Rightarrow>
          addPlacedRef [elA, elB] (fillRegionRef e orc avail w (used + ht) h (tl q))
      | PlaceSingle el ht \<Rightarrow>
          addPlacedRef [el] (fillRegionRef e orc avail w (used + ht) h q)
      | PlaceFragment el ht rest \<Rightarrow>
          addPlacedRef [el]
            (fillRegionRef e orc avail w (used + ht) (h(a := (h a)\<lparr>btext := rest\<rparr>)) (a # q)))"
  by pat_completeness auto
termination
proof (relation "measure (\<lambda>(e, orc, avail, w, used, h, q).
          sum_list (map (\<lambda>a. Suc (length (words_of (btext (h a))))) q))", goal_cases)
  case 1
  show ?case by simp
next
  case (2 e orc avail w used h a q elA elB ht)
  show ?case by (cases q) simp_all
next
  case (3 e orc avail w used h a q el ht)
  show ?case by simp
next
  case (4 e orc avail w used h a q el ht rest)
  let ?h = "h(a := (h a)\<lparr>btext := rest\<rparr>)"
  have lt: "length (words_of rest) < length (words_of (btext (h a)))"
    using loopBody_fragment_shrinks[OF 4] .
  have "sum_list (map (\<lambda>x. Suc (length (words_of (btext (?h x))))) q)
        \<le> sum_list (map (\<lambda>x. Suc (length (words_of (btext (h x))))) q)"
    using lt by (intro sum_list_mono) auto
  then show ?case using lt by simp
qed

declare fillRegionRef.simps [simp del]

fun flowRegionsRef ::
  "engine \<Rightarrow> layout \<Rightarrow> (ref \<Rightarrow> block) \<Rightarrow> ref list \<Rightarrow> region list
     \<Rightarrow> element list list list \<times> (ref \<Rightarrow> block) \<times> ref list" where
  "flowRegionsRef e orc h queue [] = ([], h, queue)"
| "flowRegionsRef e orc h queue (r # rs) =
     (if e = TextFlow \<and> \<not> wrap r then
        (case flowRegionsRef e orc h queue rs of (out, h', q') \<Rightarrow> ([] # out, h', q'))
      else if availableHeight r \<le> 0 \<or> innerWidth r \<le> 0 then
        (case flowRegionsRef e orc h queue rs of (out, h', q') \<Rightarrow> ([] # out, h', q'))
      else
        (case fillRegionRef e orc (availableHeight r) (innerWidth r) 0 h queue of
           (placed, used, h1, q1) \<Rightarrow>
             (case flowRegionsRef e orc h1 q1 rs of (out, h', q') \<Rightarrow> (placed # out, h', q'))))"

definition flowRef ::
  "engine \<Rightarrow> layout \<Rightarrow> textflow \<Rightarrow> region list
     \<Rightarrow> textflow \<times> (element list list list \<times> block list) option" where
  "flowRef e orc tf regions =
     (if this_blocks tf = [] \<or> regions = [] then (tf, None)
      else
        (case copyBlocks (heap tf) (nextRef tf) (this_blocks tf) of
           (h1, n1, queue) \<Rightarrow>
             (case flowRegionsRef e orc h1 queue regions of
                (out, h2, q') \<Rightarrow> (tf\<lparr>heap := h2, nextRef := n1\<rparr>, Some (out, map h2 q')))))"

section \<open>Example content and layouts\<close>

text \<open>
  The content and layouts that the examples below compute on.
  A layout that sets two words per line, each line 20 pixels high, a heading 40 pixels
  high; measurements do not depend on the width.  In \<open>demo\<close> the two measurements agree;
  in \<open>demoMargin\<close> the container measurement adds a 16 pixel margin to every element,
  so \<^verbatim>\<open>measureHeight\<close> and the probe's own height disagree.
\<close>

definition demoRect :: "element \<Rightarrow> px" where
  "demoRect el =
     (case el of
        HeadingEl l t \<Rightarrow> 40
      | ParagraphEl t \<Rightarrow> 20 * of_nat ((length (words_of t) + 1) div 2))"

definition demo :: layout where
  "demo = \<lparr>measureHeight = (\<lambda>w nodes. sum_list (map demoRect nodes)),
           rectHeight = (\<lambda>w el. demoRect el),
           getLineHeightPx = (\<lambda>w el. 20)\<rparr>"

definition demoMargin :: layout where
  "demoMargin = \<lparr>measureHeight = (\<lambda>w nodes. sum_list (map (\<lambda>el. demoRect el + 16) nodes)),
                 rectHeight = (\<lambda>w el. demoRect el),
                 getLineHeightPx = (\<lambda>w el. 20)\<rparr>"

definition mkHeading :: "string \<Rightarrow> bool \<Rightarrow> block" where
  "mkHeading t k = \<lparr>bid = JStr ''h'', btype = Heading, level = Some 2, btext = t,
                    keepWithNext = k, orphanProtection = 2\<rparr>"

definition mkPara :: "string \<Rightarrow> bool \<Rightarrow> rat \<Rightarrow> block" where
  "mkPara t k op = \<lparr>bid = JStr ''p'', btype = Paragraph, level = None, btext = t,
                    keepWithNext = k, orphanProtection = op\<rparr>"

definition mkRegion :: "px \<Rightarrow> region" where
  "mkRegion h = \<lparr>wrap = True, availableHeight = h, innerWidth = 100\<rparr>"

text \<open>A TextFlow object with a heading and a paragraph of ten words as its two blocks.\<close>

definition demoState :: textflow where
  "demoState =
     \<lparr>heap = (\<lambda>a. if a = 0 then mkHeading ''Intro'' False
                  else mkPara ''a b c d e f g h i j'' False 2),
      nextRef = 2,
      this_blocks = [0, 1]\<rparr>"

section \<open>Vocabulary of the properties\<close>


text \<open>
  The heading elements among what was placed, and the headings of a list of blocks as
  \<^verbatim>\<open>createHeading\<close> renders them.
\<close>

definition isHeadingEl :: "element \<Rightarrow> bool" where
  "isHeadingEl el = (case el of HeadingEl l t \<Rightarrow> True | ParagraphEl t \<Rightarrow> False)"

definition headingsOf :: "block list \<Rightarrow> element list" where
  "headingsOf q =
     map (\<lambda>b. createHeading (level b) (btext b)) (filter (\<lambda>b. btype b = Heading) q)"



text \<open>
  The height that \<^verbatim>\<open>splitParagraph\<close> reads off its probe element for the first \<open>k\<close> words
  of a block's text.
\<close>

definition prefixHeight :: "layout \<Rightarrow> px \<Rightarrow> block \<Rightarrow> nat \<Rightarrow> px" where
  "prefixHeight orc w b k =
     rectHeight orc w (setTextContent (elFactory b []) (join_sp (take k (words_of (btext b)))))"

section \<open>What the loop body places\<close>

lemma step_PlacePair:
  assumes "step orc w remaining b q = PlacePair elA elB h"
  shows "keepWithNext b" "q \<noteq> []" "elA = elFactory b (btext b)"
    "elB = elFactory (hd q) (btext (hd q))" "h = measureHeight orc w [elA, elB]"
    "h \<le> remaining" "0 < remaining"
  using assms by (auto simp: step_def Let_def split: if_splits)

lemma tfi_step_not_PlacePair: "tfi_step orc w remaining b q \<noteq> PlacePair elA elB h"
  by (auto simp: tfi_step_def Let_def split: if_splits)

lemma loopBody_PlacePair:
  assumes "loopBody e orc w remaining b q = PlacePair elA elB h"
  shows "e = TextFlow" "keepWithNext b" "q \<noteq> []" "elA = elFactory b (btext b)"
    "elB = elFactory (hd q) (btext (hd q))" "h = measureHeight orc w [elA, elB]"
    "h \<le> remaining" "0 < remaining"
  using assms step_PlacePair[of orc w remaining b q elA elB h] tfi_step_not_PlacePair[of orc w remaining b q elA elB h]
  by (cases e; simp add: loopBody_def)+

lemma loopBody_PlaceSingle:
  assumes "loopBody e orc w remaining b q = PlaceSingle el h"
  shows "el = elFactory b (btext b)" "h = measureHeight orc w [el]"
    "h \<le> remaining" "0 < remaining"
  using assms
  by (cases e; auto simp: loopBody_def step_def tfi_step_def Let_def split: if_splits)+

lemma loopBody_PlaceFragment:
  assumes "loopBody e orc w remaining b q = PlaceFragment el h rest"
  shows "btype b = Paragraph" "fitsWords (splitOf e orc w b remaining) \<noteq> 0"
    "el = ParagraphEl (firstText (splitOf e orc w b remaining))"
    "rest = restText (splitOf e orc w b remaining)"
    "h = measureHeight orc w [el]" "h \<le> remaining" "0 < remaining"
  using assms
  by (cases e; auto simp: loopBody_def step_def tfi_step_def splitOf_def Let_def elFactory_def
        createParagraph_def split: if_splits block_type.splits)+





section \<open>C4: no overflow writes\<close>



section \<open>C1: keep-with-next is all or nothing\<close>

text \<open>
Claim C1, for the engine of src/js/intro.js.  Whenever the block at the head of the
  queue has \<^verbatim>\<open>keepWithNext\<close> and a next block exists, at any point of any region's
  loop: if space is left and the two blocks measured together fit into it, both are
  appended together and the loop goes on behind them; otherwise nothing is appended, the
  queue is left as it is and the loop for this region ends at once.  The head block is
  never measured or placed alone, whether or not it would fit alone.

  The engine of src/js/text-flow-intro.js skips the keep-with-next branch: in the
  example after the theorem a paragraph with \<^verbatim>\<open>keepWithNext\<close> is placed alone in a
  region of 50 pixels, and the heading after it goes to the next region.
\<close>

theorem keep_with_next_all_or_nothing:
  assumes "keepWithNext b"
  shows "fillRegion TextFlow orc avail w used (b # b2 # q) =
     (if 0 < avail - used \<and>
         measureHeight orc w [elFactory b (btext b), elFactory b2 (btext b2)] \<le> avail - used
      then addPlaced [elFactory b (btext b), elFactory b2 (btext b2)]
             (fillRegion TextFlow orc avail w
                (used + measureHeight orc w [elFactory b (btext b), elFactory b2 (btext b2)]) q)
      else ([], used, b # b2 # q))"
proof -
  have st: "step orc w (avail - used) b (b2 # q) =
     (if avail - used \<le> 0 then Abandon
      else if measureHeight orc w [elFactory b (btext b), elFactory b2 (btext b2)] \<le> avail - used
      then PlacePair (elFactory b (btext b)) (elFactory b2 (btext b2))
             (measureHeight orc w [elFactory b (btext b), elFactory b2 (btext b2)])
      else Abandon)"
    using assms by (simp add: step_def Let_def)
  show ?thesis
    by (subst fillRegion.simps) (simp add: loopBody_def st not_le)
qed

theorem keep_with_next_all_or_nothing_witness:
  "measureHeight demo 100 [HeadingEl 2 ''Intro''] \<le> 60 \<and>
   fillRegion TextFlow demo 60 100 0 [mkHeading ''Intro'' True, mkPara ''a b c d'' False 2]
     = ([], 0, [mkHeading ''Intro'' True, mkPara ''a b c d'' False 2]) \<and>
   fillRegion TextFlow demo 300 100 0 [mkHeading ''Intro'' True, mkPara ''a b c d'' False 2]
     = ([[HeadingEl 2 ''Intro'', ParagraphEl ''a b c d'']], 80, [])"
proof -
  have k: "keepWithNext (mkHeading ''Intro'' True)" by (simp add: mkHeading_def)
  have m: "measureHeight demo 100 [HeadingEl 2 ''Intro''] \<le> 60" by code_simp
  have p: "measureHeight demo 100
             [elFactory (mkHeading ''Intro'' True) (btext (mkHeading ''Intro'' True)),
              elFactory (mkPara ''a b c d'' False 2) (btext (mkPara ''a b c d'' False 2))] = 80"
    by code_simp
  have e: "fillRegion TextFlow demo 300 100 80 [] = ([], 80, [])"
    by (simp add: fillRegion.simps)
  have el: "elFactory (mkHeading ''Intro'' True) (btext (mkHeading ''Intro'' True)) = HeadingEl 2 ''Intro''"
      "elFactory (mkPara ''a b c d'' False 2) (btext (mkPara ''a b c d'' False 2)) = ParagraphEl ''a b c d''"
    by code_simp+
  show ?thesis
    using keep_with_next_all_or_nothing[OF k, of demo 60 100 0 "mkPara ''a b c d'' False 2" "[]"]
      keep_with_next_all_or_nothing[OF k, of demo 300 100 0 "mkPara ''a b c d'' False 2" "[]"]
      m p e el
    by (simp add: addPlaced_def)
qed

theorem keep_with_next_skipped_in_variant:
  "keepWithNext (mkPara ''a b'' True 2) \<and>
   \<not> measureHeight demo 100 [ParagraphEl ''a b'', HeadingEl 2 ''Title''] \<le> 50 \<and>
   flow TextFlowIntro demo [mkPara ''a b'' True 2, mkHeading ''Title'' False]
     [mkRegion 50, mkRegion 300]
   = Some ([[[ParagraphEl ''a b'']], [[HeadingEl 2 ''Title'']]], [])"
  by code_simp

section \<open>C2: the orphan floor of a split\<close>







section \<open>C8: a fragment is measured again before it is placed\<close>

lemma elFactory_Paragraph: "btype b = Paragraph \<Longrightarrow> elFactory b t = ParagraphEl t"
  by (simp add: elFactory_def createParagraph_def)

lemma elFactory_Heading:
  "btype b = Heading \<Longrightarrow> elFactory b t = createHeading (level b) (btext b)"
  by (simp add: elFactory_def)

lemma loopBody_split:
  assumes "0 < remaining"
    and "\<not> (e = TextFlow \<and> keepWithNext b \<and> q \<noteq> [])"
    and "btype b = Paragraph"
    and "remaining < measureHeight orc w [ParagraphEl (btext b)]"
    and "fitsWords (splitOf e orc w b remaining) \<noteq> 0"
  shows "loopBody e orc w remaining b q =
     (if measureHeight orc w [ParagraphEl (firstText (splitOf e orc w b remaining))] \<le> remaining
      then PlaceFragment (ParagraphEl (firstText (splitOf e orc w b remaining)))
             (measureHeight orc w [ParagraphEl (firstText (splitOf e orc w b remaining))])
             (restText (splitOf e orc w b remaining))
      else Abandon)"
proof (cases e)
  case TextFlow
  with assms(2) have nk: "\<not> (keepWithNext b \<and> q \<noteq> [])" by simp
  have "step orc w remaining b q =
     (if measureHeight orc w [ParagraphEl (firstText (splitParagraph orc w b remaining))] \<le> remaining
      then PlaceFragment (ParagraphEl (firstText (splitParagraph orc w b remaining)))
             (measureHeight orc w [ParagraphEl (firstText (splitParagraph orc w b remaining))])
             (restText (splitParagraph orc w b remaining))
      else Abandon)"
    unfolding step_def Let_def if_not_P[OF nk]
    using assms(1,3,4,5) TextFlow
    by (simp add: splitOf_def elFactory_Paragraph not_le)
  then show ?thesis using TextFlow by (simp add: loopBody_def splitOf_def)
next
  case TextFlowIntro
  then show ?thesis
    using assms
    by (simp add: loopBody_def tfi_step_def splitOf_def Let_def elFactory_Paragraph not_le)
qed

text \<open>
Claim C8, for both engines.  When the head of the queue is a paragraph that does not
  fit alone and the split offers a prefix, the loop measures the fragment again with
  \<^verbatim>\<open>measureHeight\<close>.  If that height exceeds the space left, nothing is appended, the
  queue and the text of its head stay as they were, and the loop for this region ends.
  Otherwise the fragment is appended, \<^verbatim>\<open>used\<close> grows by the height measured again (not
  by the probe height that the split compared), and only then the head's text becomes
  the remainder.
\<close>

theorem fragment_remeasured:
  assumes "0 < avail - used"
    and "\<not> (e = TextFlow \<and> keepWithNext b \<and> q \<noteq> [])"
    and "btype b = Paragraph"
    and "avail - used < measureHeight orc w [ParagraphEl (btext b)]"
    and "fitsWords (splitOf e orc w b (avail - used)) \<noteq> 0"
  shows "fillRegion e orc avail w used (b # q) =
     (if measureHeight orc w [ParagraphEl (firstText (splitOf e orc w b (avail - used)))]
           \<le> avail - used
      then addPlaced [ParagraphEl (firstText (splitOf e orc w b (avail - used)))]
             (fillRegion e orc avail w
                (used + measureHeight orc w
                          [ParagraphEl (firstText (splitOf e orc w b (avail - used)))])
                (b\<lparr>btext := restText (splitOf e orc w b (avail - used))\<rparr> # q))
      else ([], used, b # q))"
  by (subst fillRegion.simps) (simp add: loopBody_split[OF assms])

theorem fragment_remeasured_witness:
  "splitOf TextFlow demoMargin 100 (mkPara ''a b c d e f g h i j'' False 2) 64
     = \<lparr>fitsWords = 6, firstText = ''a b c d e f'', restText = ''g h i j''\<rparr> \<and>
   rectHeight demoMargin 100 (ParagraphEl ''a b c d e f'') \<le> 64 \<and>
   \<not> measureHeight demoMargin 100 [ParagraphEl ''a b c d e f''] \<le> 64 \<and>
   fillRegion TextFlow demoMargin 120 100 56 [mkPara ''a b c d e f g h i j'' False 2]
     = ([], 56, [mkPara ''a b c d e f g h i j'' False 2])"
proof -
  let ?b = "mkPara ''a b c d e f g h i j'' False 2"
  have s: "splitOf TextFlow demoMargin 100 ?b 64
     = \<lparr>fitsWords = 6, firstText = ''a b c d e f'', restText = ''g h i j''\<rparr>"
    by code_simp
  have h1: "(0::rat) < 120 - 56" by simp
  have h2: "\<not> (TextFlow = TextFlow \<and> keepWithNext ?b \<and> ([]::block list) \<noteq> [])" by simp
  have h3: "btype ?b = Paragraph" by (simp add: mkPara_def)
  have h4: "120 - 56 < measureHeight demoMargin 100 [ParagraphEl (btext ?b)]" by code_simp
  have h5: "fitsWords (splitOf TextFlow demoMargin 100 ?b (120 - 56)) \<noteq> 0" by code_simp
  have m1: "rectHeight demoMargin 100 (ParagraphEl ''a b c d e f'') \<le> 64" by code_simp
  have m2: "\<not> measureHeight demoMargin 100 [ParagraphEl ''a b c d e f''] \<le> 64" by code_simp
  from fragment_remeasured[OF h1 h2 h3 h4 h5] show ?thesis
    using s m1 m2 by simp
qed

section \<open>C9: regions without room are skipped\<close>

lemma flowRegions_Cons_ex:
  "\<exists>p q1. \<forall>rs. flowRegions e orc q (r # rs) =
      (case flowRegions e orc q1 rs of (out, q') \<Rightarrow> (p # out, q'))"
proof (cases "(e = TextFlow \<and> \<not> wrap r) \<or> availableHeight r \<le> 0 \<or> innerWidth r \<le> 0")
  case True
  then have "\<forall>rs. flowRegions e orc q (r # rs) =
      (case flowRegions e orc q rs of (out, q') \<Rightarrow> ([] # out, q'))"
    by auto
  then show ?thesis by blast
next
  case False
  obtain placed used q1 where
    f: "fillRegion e orc (availableHeight r) (innerWidth r) 0 q = (placed, used, q1)"
    by (cases "fillRegion e orc (availableHeight r) (innerWidth r) 0 q") auto
  have "\<forall>rs. flowRegions e orc q (r # rs) =
      (case flowRegions e orc q1 rs of (out, q') \<Rightarrow> (placed # out, q'))"
    using False f by auto
  then show ?thesis by blast
qed

lemma flowRegions_append:
  "flowRegions e orc q (rs1 @ rs2) =
     (case flowRegions e orc q rs1 of (out1, q1) \<Rightarrow>
        (case flowRegions e orc q1 rs2 of (out2, q2) \<Rightarrow> (out1 @ out2, q2)))"
proof (induction rs1 arbitrary: q)
  case Nil
  show ?case by (simp split: prod.splits)
next
  case (Cons r rs1)
  obtain p q1 where c: "\<And>rs. flowRegions e orc q (r # rs) =
      (case flowRegions e orc q1 rs of (out, q') \<Rightarrow> (p # out, q'))"
    using flowRegions_Cons_ex[of e orc q r] by blast
  have "flowRegions e orc q ((r # rs1) @ rs2) =
      (case flowRegions e orc q1 (rs1 @ rs2) of (out, q') \<Rightarrow> (p # out, q'))"
    using c[of "rs1 @ rs2"] by simp
  also have "\<dots> = (case flowRegions e orc q (r # rs1) of (out1, q1) \<Rightarrow>
        (case flowRegions e orc q1 rs2 of (out2, q2) \<Rightarrow> (out1 @ out2, q2)))"
    unfolding Cons.IH[of q1] c[of rs1] by (simp split: prod.splits)
  finally show ?case .
qed

text \<open>
Claim C9, for both engines.  A region whose available height or inner width is zero
  or negative receives nothing; the pass hands the queue that the regions before it left
  unchanged to the regions after it, and goes on with them.
\<close>

theorem invalid_region_skipped:
  assumes "availableHeight r \<le> 0 \<or> innerWidth r \<le> 0"
  shows "flowRegions e orc q (rs1 @ r # rs2) =
     (case flowRegions e orc q rs1 of (out1, q1) \<Rightarrow>
        (case flowRegions e orc q1 rs2 of (out2, q2) \<Rightarrow> (out1 @ [] # out2, q2))) \<and>
     (blocks \<noteq> [] \<longrightarrow>
        flow e orc blocks (rs1 @ r # rs2) =
          Some (case flowRegions e orc (map (\<lambda>b. b\<lparr>btext := btext b\<rparr>) blocks) rs1 of (out1, q1) \<Rightarrow>
                  (case flowRegions e orc q1 rs2 of (out2, q2) \<Rightarrow> (out1 @ [] # out2, q2))))"
proof -
  have one: "\<And>q. flowRegions e orc q (r # rs2) =
      (case flowRegions e orc q rs2 of (out2, q2) \<Rightarrow> ([] # out2, q2))"
    using assms by simp
  have a: "\<And>q. flowRegions e orc q (rs1 @ r # rs2) =
     (case flowRegions e orc q rs1 of (out1, q1) \<Rightarrow>
        (case flowRegions e orc q1 rs2 of (out2, q2) \<Rightarrow> (out1 @ [] # out2, q2)))"
    unfolding flowRegions_append one by (simp split: prod.splits)
  show ?thesis
    using a by (simp add: flow_def)
qed

theorem invalid_region_skipped_witness:
  "flow TextFlow demo [mkHeading ''Intro'' False, mkPara ''a b c d'' False 2]
     [mkRegion 50, \<lparr>wrap = True, availableHeight = 0, innerWidth = 100\<rparr>, mkRegion 300]
   = Some ([[[HeadingEl 2 ''Intro'']], [], [[ParagraphEl ''a b c d'']]], [])"
proof -
  have h: "availableHeight \<lparr>wrap = True, availableHeight = 0, innerWidth = 100\<rparr> \<le> 0 \<or>
           innerWidth \<lparr>wrap = True, availableHeight = 0, innerWidth = 100\<rparr> \<le> 0"
    by simp
  have ne: "[mkHeading ''Intro'' False, mkPara ''a b c d'' False 2] \<noteq> []" by simp
  have r1: "flowRegions TextFlow demo
              (map (\<lambda>b. b\<lparr>btext := btext b\<rparr>) [mkHeading ''Intro'' False, mkPara ''a b c d'' False 2])
              [mkRegion 50]
            = ([[[HeadingEl 2 ''Intro'']]], [mkPara ''a b c d'' False 2])"
    by code_simp
  have r2: "flowRegions TextFlow demo [mkPara ''a b c d'' False 2] [mkRegion 300]
            = ([[[ParagraphEl ''a b c d'']]], [])"
    by code_simp
  have t: "flow TextFlow demo [mkHeading ''Intro'' False, mkPara ''a b c d'' False 2]
        ([mkRegion 50] @ \<lparr>wrap = True, availableHeight = 0, innerWidth = 100\<rparr> # [mkRegion 300]) =
      Some (case flowRegions TextFlow demo
                   (map (\<lambda>b. b\<lparr>btext := btext b\<rparr>)
                      [mkHeading ''Intro'' False, mkPara ''a b c d'' False 2])
                   [mkRegion 50] of
              (out1, q1) \<Rightarrow>
                (case flowRegions TextFlow demo q1 [mkRegion 300] of
                   (out2, q2) \<Rightarrow> (out1 @ [] # out2, q2)))"
    using invalid_region_skipped[OF h, of TextFlow demo _ "[mkRegion 50]" "[mkRegion 300]"
         "[mkHeading ''Intro'' False, mkPara ''a b c d'' False 2]"] ne
    by blast
  have "flow TextFlow demo [mkHeading ''Intro'' False, mkPara ''a b c d'' False 2]
        ([mkRegion 50] @ \<lparr>wrap = True, availableHeight = 0, innerWidth = 100\<rparr> # [mkRegion 300]) =
      Some ([[[HeadingEl 2 ''Intro'']]] @ [] # [[[ParagraphEl ''a b c d'']]], [])"
    using t by (simp only: r1 r2 prod.case)
  then show ?thesis by simp
qed

section \<open>C10: an explicit orphanProtection of 0\<close>

lemma buildBlock_orphanProtection:
  assumes "buildBlock i raw = Some b"
  shows "orphanProtection b =
           (case rb_orphanProtection raw of Some (JNum n) \<Rightarrow> n | _ \<Rightarrow> 2)"
  using assms by (auto simp: buildBlock_def Let_def split: if_splits)

lemma splitParagraph_cong_minLines:
  assumes "minLines b' = minLines b" "btext b' = btext b" "elFactory b' = elFactory b"
  shows "splitParagraph orc w b' avail = splitParagraph orc w b avail"
  unfolding splitParagraph_def Let_def assms ..

text \<open>
Claim C10, for src/js/intro.js.  A raw block whose \<^verbatim>\<open>orphanProtection\<close> is the number 0
  is built into a block whose \<^verbatim>\<open>orphanProtection\<close> is 0.  \<^verbatim>\<open>splitParagraph\<close> treats
  that block as it treats the same block with \<^verbatim>\<open>orphanProtection\<close> 2: its line floor
  \<open>minLines\<close> is 2, so every fragment it offers is at least two line heights high, and an
  explicit 0 does not switch the floor off.
\<close>

theorem explicit_zero_orphan_protection:
  assumes "buildBlock i raw = Some b" and "rb_orphanProtection raw = Some (JNum 0)"
  shows "orphanProtection b = 0 \<and> minLines b = 2 \<and>
         splitParagraph orc w b avail = splitParagraph orc w (b\<lparr>orphanProtection := 2\<rparr>) avail \<and>
         (fitsWords (splitParagraph orc w b avail) \<noteq> 0 \<longrightarrow>
            getLineHeightPx orc w (elFactory b []) * 2
              \<le> rectHeight orc w
                   (setTextContent (elFactory b []) (firstText (splitParagraph orc w b avail))))"
proof -
  have z: "orphanProtection b = 0"
    using buildBlock_orphanProtection[OF assms(1)] assms(2) by simp
  have m: "minLines b = 2" by (simp add: minLines_def js_or_def z)
  have m2: "minLines (b\<lparr>orphanProtection := 2\<rparr>) = 2" by (simp add: minLines_def js_or_def)
  have ef: "elFactory (b\<lparr>orphanProtection := 2\<rparr>) = elFactory b"
    by (rule ext) (simp add: elFactory_def split: block_type.splits)
  have s: "splitParagraph orc w b avail = splitParagraph orc w (b\<lparr>orphanProtection := 2\<rparr>) avail"
    by (rule splitParagraph_cong_minLines[symmetric]) (simp_all add: m m2 ef)
  have f: "fitsWords (splitParagraph orc w b avail) \<noteq> 0 \<Longrightarrow>
            getLineHeightPx orc w (elFactory b []) * 2
              \<le> rectHeight orc w
                   (setTextContent (elFactory b []) (firstText (splitParagraph orc w b avail)))"
  proof -
    assume a: "fitsWords (splitParagraph orc w b avail) \<noteq> 0"
    from splitParagraph_unfold(4,5)[OF a] show ?thesis by (simp add: m)
  qed
  show ?thesis using z m s f by blast
qed

theorem explicit_zero_orphan_protection_witness:
  "buildBlock 0 \<lparr>rb_type = Some (JStr ''paragraph''), rb_id = None, rb_level = None,
                 rb_text = Some ''a b c d e f g'', rb_keepWithNext = None,
                 rb_orphanProtection = Some (JNum 0)\<rparr>
     = Some \<lparr>bid = JStr ''blk-0'', btype = Paragraph, level = None, btext = ''a b c d e f g'',
             keepWithNext = False, orphanProtection = 0\<rparr> \<and>
   minLines \<lparr>bid = JStr ''blk-0'', btype = Paragraph, level = None, btext = ''a b c d e f g'',
             keepWithNext = False, orphanProtection = 0\<rparr> = 2 \<and>
   rectHeight demo 100 (ParagraphEl ''a b'') \<le> 30 \<and>
   splitParagraph demo 100
      \<lparr>bid = JStr ''blk-0'', btype = Paragraph, level = None, btext = ''a b c d e f g'',
       keepWithNext = False, orphanProtection = 0\<rparr> 30
     = \<lparr>fitsWords = 0, firstText = [], restText = ''a b c d e f g''\<rparr>"
proof -
  let ?raw = "\<lparr>rb_type = Some (JStr ''paragraph''), rb_id = None, rb_level = None,
                 rb_text = Some ''a b c d e f g'', rb_keepWithNext = None,
                 rb_orphanProtection = Some (JNum 0)\<rparr>"
  let ?b = "\<lparr>bid = JStr ''blk-0'', btype = Paragraph, level = None, btext = ''a b c d e f g'',
             keepWithNext = False, orphanProtection = 0\<rparr>"
  have h1: "buildBlock 0 ?raw = Some ?b" by code_simp
  have h2: "rb_orphanProtection ?raw = Some (JNum 0)" by simp
  have r: "rectHeight demo 100 (ParagraphEl ''a b'') \<le> 30" by code_simp
  have s2: "splitParagraph demo 100 (?b\<lparr>orphanProtection := 2\<rparr>) 30
     = \<lparr>fitsWords = 0, firstText = [], restText = ''a b c d e f g''\<rparr>"
    by code_simp
  from explicit_zero_orphan_protection[OF h1 h2, of demo 100 30]
  show ?thesis using h1 r s2 by simp
qed

section \<open>Content is conserved by the loops\<close>

text \<open>
  Both engines cut a paragraph between two words: the fragment is the first \<open>n\<close> words
  and the remainder the other words, each joined by single spaces.  Hence whatever is
  read off the blocks word by word, or block by block for blocks that are never cut, is
  the same for the queue before a loop as for what the loop placed followed by the queue
  it leaves.
\<close>

lemma join_sp_eq_Nil: "\<forall>x\<in>set ws. word_ok x \<Longrightarrow> join_sp ws = [] \<longleftrightarrow> ws = []"
  by (cases ws) (auto simp: join_sp_Cons word_ok_def)

lemma join_sp_snoc:
  "join_sp (pre @ [wd]) = join_sp pre @ (if pre \<noteq> [] then [CHR 0x20] else []) @ wd"
proof (induction pre rule: join_sp.induct)
  case 1
  show ?case by simp
next
  case (2 v)
  show ?case by simp
next
  case (3 v v' vs)
  then show ?case by simp
qed

lemma tfi_grow_text:
  assumes "\<forall>x\<in>set pre. word_ok x" and "\<forall>x\<in>set rest. word_ok x"
  shows "fst (tfi_grow orc w mp lh ml rest (join_sp pre) (join_sp pre) (int (length pre)))
         = join_sp (take (nat (snd (tfi_grow orc w mp lh ml rest (join_sp pre) (join_sp pre)
                                      (int (length pre))))) (pre @ rest))"
  using assms
proof (induction rest arbitrary: pre)
  case Nil
  show ?case by simp
next
  case (Cons wd rest)
  have ne: "join_sp pre \<noteq> [] \<longleftrightarrow> pre \<noteq> []"
    using join_sp_eq_Nil[OF Cons.prems(1)] by simp
  have t: "join_sp pre @ (if join_sp pre \<noteq> [] then [CHR 0x20] else []) @ wd = join_sp (pre @ [wd])"
    by (simp add: join_sp_snoc ne)
  show ?case
  proof (cases "js_le (js_ceil (js_div (rectHeight orc w (setTextContent mp (join_sp (pre @ [wd])))) lh)) ml")
    case True
    have g: "tfi_grow orc w mp lh ml (wd # rest) (join_sp pre) (join_sp pre) (int (length pre))
        = tfi_grow orc w mp lh ml rest (join_sp (pre @ [wd])) (join_sp (pre @ [wd]))
            (int (length (pre @ [wd])))"
      using True by (simp add: Let_def t add.commute)
    have a: "\<forall>x\<in>set (pre @ [wd]). word_ok x" using Cons.prems by simp
    have b: "\<forall>x\<in>set rest. word_ok x" using Cons.prems by simp
    from Cons.IH[OF a b] show ?thesis unfolding g by simp
  next
    case False
    then have g: "tfi_grow orc w mp lh ml (wd # rest) (join_sp pre) (join_sp pre) (int (length pre))
          = (join_sp pre, int (length pre))"
      by (simp add: Let_def t)
    show ?thesis unfolding g by simp
  qed
qed

lemma tfi_splitParagraph_pieces:
  assumes "fitsWords (tfi_splitParagraph orc w b avail) \<noteq> 0"
  shows "firstText (tfi_splitParagraph orc w b avail) =
           join_sp (take (nat (fitsWords (tfi_splitParagraph orc w b avail))) (words_of (btext b)))"
proof -
  define ws where "ws = words_of (btext b)"
  define mp where "mp = elFactory b []"
  define lh where "lh = getLineHeightPx orc w mp"
  define ml where "ml = js_floor (js_div avail lh)"
  define g where "g = tfi_grow orc w mp lh ml ws [] [] 0"
  have ok: "\<forall>x\<in>set ws. word_ok x" by (simp add: ws_def words_of_ok)
  have gt: "fst g = join_sp (take (nat (snd g)) ws)"
    using tfi_grow_text[of "[]" ws orc w mp lh ml] ok by (simp add: g_def)
  have ne: "ws \<noteq> []" and nl: "\<not> js_lt ml (Fin 1)"
    using assms
    by (auto simp: tfi_splitParagraph_def Let_def ws_def mp_def lh_def ml_def split: if_splits)
  have eq: "tfi_splitParagraph orc w b avail =
      (if snd g = 0 \<and> rectHeight orc w (setTextContent mp (hd ws)) \<le> avail
       then \<lparr>fitsWords = 1, firstText = hd ws, restText = join_sp (drop 1 ws)\<rparr>
       else \<lparr>fitsWords = snd g, firstText = fst g,
             restText = join_sp (drop (nat (snd g)) ws)\<rparr>)"
    using ne nl
    by (simp add: tfi_splitParagraph_def Let_def ws_def[symmetric] mp_def[symmetric]
        lh_def[symmetric] ml_def[symmetric] g_def[symmetric] case_prod_beta)
  have hd1: "hd ws = join_sp (take 1 ws)" using ne by (cases ws) simp_all
  show ?thesis
    unfolding eq ws_def[symmetric] using gt hd1 by (simp split: if_splits)
qed

lemma splitOf_pieces:
  assumes "fitsWords (splitOf e orc w b avail) \<noteq> 0"
  shows "\<exists>n. 1 \<le> n \<and> n \<le> length (words_of (btext b)) \<and>
             firstText (splitOf e orc w b avail) = join_sp (take n (words_of (btext b))) \<and>
             restText (splitOf e orc w b avail) = join_sp (drop n (words_of (btext b)))"
proof (cases e)
  case TextFlow
  with assms have f: "fitsWords (splitParagraph orc w b avail) \<noteq> 0" by (simp add: splitOf_def)
  note r = splitParagraph_fits_range[OF f]
  have "1 \<le> nat (fitsWords (splitParagraph orc w b avail))"
    and "nat (fitsWords (splitParagraph orc w b avail)) \<le> length (words_of (btext b))"
    using r(1,2) by linarith+
  then show ?thesis
    unfolding TextFlow splitOf_def using r(3,4)
    by (intro exI[of _ "nat (fitsWords (splitParagraph orc w b avail))"]) simp
next
  case TextFlowIntro
  with assms have f: "fitsWords (tfi_splitParagraph orc w b avail) \<noteq> 0" by (simp add: splitOf_def)
  note r = tfi_splitParagraph_fits_range[OF f]
  have "1 \<le> nat (fitsWords (tfi_splitParagraph orc w b avail))"
    and "nat (fitsWords (tfi_splitParagraph orc w b avail)) \<le> length (words_of (btext b))"
    using r(1,2) by linarith+
  then show ?thesis
    unfolding TextFlowIntro splitOf_def using r(3) tfi_splitParagraph_pieces[OF f]
    by (intro exI[of _ "nat (fitsWords (tfi_splitParagraph orc w b avail))"]) simp
qed

lemma fillRegion_conserves:
  fixes F :: "block \<Rightarrow> 'a list" and G :: "element \<Rightarrow> 'a list"
  assumes whole: "\<And>b. G (elFactory b (btext b)) = F b"
    and part: "\<And>b n. btype b = Paragraph \<Longrightarrow> 1 \<le> n \<Longrightarrow> n \<le> length (words_of (btext b)) \<Longrightarrow>
               G (ParagraphEl (join_sp (take n (words_of (btext b)))))
                 @ F (b\<lparr>btext := join_sp (drop n (words_of (btext b)))\<rparr>) = F b"
  shows "fillRegion e orc avail w used q = (ps, u, q') \<Longrightarrow>
         concat (map G (concat ps)) @ concat (map F q') = concat (map F q)"
proof (induction e orc avail w used q arbitrary: ps u q' rule: fillRegion.induct)
  case (1 e orc avail w used)
  then show ?case by (simp add: fillRegion.simps)
next
  case (2 e orc avail w used b q)
  show ?case
  proof (cases "loopBody e orc w (avail - used) b q")
    case (PlacePair elA elB h)
    then obtain ps1 where r: "fillRegion e orc avail w (used + h) (tl q) = (ps1, u, q')"
      and ps: "ps = [elA, elB] # ps1"
      using "2.prems" by (auto simp: fillRegion.simps addPlaced_def split: prod.splits)
    from loopBody_PlacePair[OF PlacePair] obtain b2 q2 where q: "q = b2 # q2"
      and el: "elA = elFactory b (btext b)" "elB = elFactory b2 (btext b2)"
      by (cases q) auto
    from "2.IH"(1)[OF PlacePair r] show ?thesis
      by (simp add: ps q el whole)
  next
    case (PlaceSingle el h)
    then obtain ps1 where r: "fillRegion e orc avail w (used + h) q = (ps1, u, q')"
      and ps: "ps = [el] # ps1"
      using "2.prems" by (auto simp: fillRegion.simps addPlaced_def split: prod.splits)
    from "2.IH"(2)[OF PlaceSingle r] loopBody_PlaceSingle(1)[OF PlaceSingle]
    show ?thesis by (simp add: ps whole)
  next
    case (PlaceFragment el h rest)
    then obtain ps1 where
      r: "fillRegion e orc avail w (used + h) (b\<lparr>btext := rest\<rparr> # q) = (ps1, u, q')"
      and ps: "ps = [el] # ps1"
      using "2.prems" by (auto simp: fillRegion.simps addPlaced_def split: prod.splits)
    note f = loopBody_PlaceFragment[OF PlaceFragment]
    from splitOf_pieces[OF f(2)] obtain n where n: "1 \<le> n" "n \<le> length (words_of (btext b))"
      and el: "el = ParagraphEl (join_sp (take n (words_of (btext b))))"
      and rest: "rest = join_sp (drop n (words_of (btext b)))"
      using f(3,4) by auto
    have "concat (map G (concat ps)) @ concat (map F q')
        = G el @ (concat (map G (concat ps1)) @ concat (map F q'))"
      by (simp add: ps)
    also have "\<dots> = G el @ F (b\<lparr>btext := rest\<rparr>) @ concat (map F q)"
      using "2.IH"(3)[OF PlaceFragment r] by simp
    also have "\<dots> = F b @ concat (map F q)"
      using part[OF f(1) n] by (simp add: el rest)
    finally show ?thesis by simp
  next
    case Abandon
    then show ?thesis using "2.prems" by (simp add: fillRegion.simps)
  qed
qed

lemma flowRegions_conserves:
  fixes F :: "block \<Rightarrow> 'a list" and G :: "element \<Rightarrow> 'a list"
  assumes whole: "\<And>b. G (elFactory b (btext b)) = F b"
    and part: "\<And>b n. btype b = Paragraph \<Longrightarrow> 1 \<le> n \<Longrightarrow> n \<le> length (words_of (btext b)) \<Longrightarrow>
               G (ParagraphEl (join_sp (take n (words_of (btext b)))))
                 @ F (b\<lparr>btext := join_sp (drop n (words_of (btext b)))\<rparr>) = F b"
  shows "flowRegions e orc q rs = (out, q') \<Longrightarrow>
         concat (map G (concat (concat out))) @ concat (map F q') = concat (map F q)"
proof (induction rs arbitrary: q out q')
  case Nil
  then show ?case by simp
next
  case (Cons r rs)
  show ?case
  proof (cases "(e = TextFlow \<and> \<not> wrap r) \<or> availableHeight r \<le> 0 \<or> innerWidth r \<le> 0")
    case True
    then obtain out1 where r1: "flowRegions e orc q rs = (out1, q')" and o: "out = [] # out1"
      using Cons.prems by (auto split: prod.splits if_splits)
    from Cons.IH[OF r1] show ?thesis unfolding o by simp
  next
    case False
    then obtain placed used q1 out1 where
      f: "fillRegion e orc (availableHeight r) (innerWidth r) 0 q = (placed, used, q1)"
      and r1: "flowRegions e orc q1 rs = (out1, q')" and o: "out = placed # out1"
      using Cons.prems by (auto split: prod.splits if_splits)
    have "concat (map G (concat (concat out))) @ concat (map F q')
        = concat (map G (concat placed)) @ (concat (map G (concat (concat out1))) @ concat (map F q'))"
      by (simp add: o)
    also have "\<dots> = concat (map G (concat placed)) @ concat (map F q1)"
      using Cons.IH[OF r1] by simp
    also have "\<dots> = concat (map F q)"
      using fillRegion_conserves[of G F, OF whole part f] by simp
    finally show ?thesis .
  qed
qed

section \<open>C5: headings are placed whole or not at all\<close>

lemma copy_blocks_id: "map (\<lambda>b::block. b\<lparr>btext := btext b\<rparr>) blocks = blocks"
  by (induction blocks) simp_all

lemma filter_as_concat: "concat (map (\<lambda>x. if P x then [x] else []) xs) = filter P xs"
  by (induction xs) simp_all

lemma headingsOf_as_concat:
  "concat (map (\<lambda>b. if btype b = Heading then [createHeading (level b) (btext b)] else []) q)
     = headingsOf q"
  by (induction q) (simp_all add: headingsOf_def)

lemma flowRegions_headings:
  assumes "flowRegions e orc q rs = (out, q')"
  shows "filter isHeadingEl (concat (concat out)) @ headingsOf q' = headingsOf q"
proof -
  let ?G = "\<lambda>el. if isHeadingEl el then [el] else []"
  let ?F = "\<lambda>b. if btype b = Heading then [createHeading (level b) (btext b)] else []"
  have whole: "\<And>b. ?G (elFactory b (btext b)) = ?F b"
    by (simp add: elFactory_def createHeading_def createParagraph_def isHeadingEl_def
        split: block_type.splits)
  have part: "\<And>b n. btype b = Paragraph \<Longrightarrow> 1 \<le> n \<Longrightarrow> n \<le> length (words_of (btext b)) \<Longrightarrow>
               ?G (ParagraphEl (join_sp (take n (words_of (btext b)))))
                 @ ?F (b\<lparr>btext := join_sp (drop n (words_of (btext b)))\<rparr>) = ?F b"
    by (simp add: isHeadingEl_def)
  from flowRegions_conserves[of ?G ?F, OF whole part assms]
  show ?thesis by (simp only: filter_as_concat headingsOf_as_concat)
qed

lemma loopBody_heading_single:
  assumes "btype b = Heading"
    and "\<not> (e = TextFlow \<and> keepWithNext b \<and> q \<noteq> [])"
    and "\<not> measureHeight orc w [createHeading (level b) (btext b)] \<le> remaining"
  shows "loopBody e orc w remaining b q = Abandon"
proof (cases e)
  case TextFlow
  with assms(2) have nk: "\<not> (keepWithNext b \<and> q \<noteq> [])" by simp
  have "step orc w remaining b q = Abandon"
    unfolding step_def Let_def if_not_P[OF nk]
    using assms(1,3) by (simp add: elFactory_Heading)
  then show ?thesis using TextFlow by (simp add: loopBody_def)
next
  case TextFlowIntro
  then show ?thesis
    using assms(1,3) by (simp add: loopBody_def tfi_step_def Let_def elFactory_Heading)
qed

lemma step_heading_pair:
  assumes "btype b = Heading" and "keepWithNext b" and "q \<noteq> []"
    and "\<not> measureHeight orc w [createHeading (level b) (btext b), elFactory (hd q) (btext (hd q))]
           \<le> remaining"
  shows "step orc w remaining b q = Abandon"
  using assms by (simp add: step_def Let_def elFactory_Heading)

text \<open>
Claim C5, for both engines.  After a pass, the heading elements that the regions
  received, in region order, followed by the headings still in the queue, are exactly
  the headings of the block list, each rendered whole by \<^verbatim>\<open>createHeading\<close> from its own
  level and text: a heading is placed once, in one region, in full, or it is not placed.
  When the head of the queue is a heading whose measurement (alone, or together with
  its successor when the keep-with-next branch of src/js/intro.js applies) does not fit
  the space left, nothing is appended, the loop for the region ends, the heading stays
  at the head of the queue, and the pass goes on to the next region with that queue.
\<close>

theorem heading_atomicity:
  "(flow e orc blocks regions = Some (out, rest) \<longrightarrow>
      filter isHeadingEl (concat (concat out)) @ headingsOf rest = headingsOf blocks) \<and>
   (btype b = Heading \<and> \<not> (e = TextFlow \<and> keepWithNext b \<and> q \<noteq> []) \<and>
    \<not> measureHeight orc w [createHeading (level b) (btext b)] \<le> avail - used \<longrightarrow>
      fillRegion e orc avail w used (b # q) = ([], used, b # q)) \<and>
   (btype b = Heading \<and> keepWithNext b \<and> q \<noteq> [] \<and>
    \<not> measureHeight orc w [createHeading (level b) (btext b), elFactory (hd q) (btext (hd q))]
        \<le> avail - used \<longrightarrow>
      fillRegion TextFlow orc avail w used (b # q) = ([], used, b # q)) \<and>
   (fillRegion e orc (availableHeight r) (innerWidth r) 0 (b # q) = ([], 0, b # q) \<longrightarrow>
      flowRegions e orc (b # q) (r # rs) =
        (case flowRegions e orc (b # q) rs of (out', q') \<Rightarrow> ([] # out', q')))"
proof (intro conjI impI)
  assume "flow e orc blocks regions = Some (out, rest)"
  then have "flowRegions e orc blocks regions = (out, rest)"
    by (simp add: flow_def copy_blocks_id split: if_splits)
  then show "filter isHeadingEl (concat (concat out)) @ headingsOf rest = headingsOf blocks"
    by (rule flowRegions_headings)
next
  assume a: "btype b = Heading \<and> \<not> (e = TextFlow \<and> keepWithNext b \<and> q \<noteq> []) \<and>
    \<not> measureHeight orc w [createHeading (level b) (btext b)] \<le> avail - used"
  then have "loopBody e orc w (avail - used) b q = Abandon"
    using loopBody_heading_single[of b e q orc w "avail - used"] by blast
  then show "fillRegion e orc avail w used (b # q) = ([], used, b # q)"
    by (subst fillRegion.simps) simp
next
  assume a: "btype b = Heading \<and> keepWithNext b \<and> q \<noteq> [] \<and>
    \<not> measureHeight orc w [createHeading (level b) (btext b), elFactory (hd q) (btext (hd q))]
        \<le> avail - used"
  then have "step orc w (avail - used) b q = Abandon"
    using step_heading_pair[of b q orc w "avail - used"] by blast
  then show "fillRegion TextFlow orc avail w used (b # q) = ([], used, b # q)"
    by (subst fillRegion.simps) (simp add: loopBody_def)
next
  assume "fillRegion e orc (availableHeight r) (innerWidth r) 0 (b # q) = ([], 0, b # q)"
  then show "flowRegions e orc (b # q) (r # rs) =
        (case flowRegions e orc (b # q) rs of (out', q') \<Rightarrow> ([] # out', q'))"
    by simp
qed

theorem heading_atomicity_witness:
  "flow TextFlow demo [mkHeading ''Intro'' False, mkPara ''a b'' False 2]
     [mkRegion 30, mkRegion 300]
   = Some ([[], [[HeadingEl 2 ''Intro''], [ParagraphEl ''a b'']]], []) \<and>
   filter isHeadingEl (concat (concat [[], [[HeadingEl 2 ''Intro''], [ParagraphEl ''a b'']]]))
     @ headingsOf []
     = headingsOf [mkHeading ''Intro'' False, mkPara ''a b'' False 2] \<and>
   \<not> measureHeight demo 100 [HeadingEl 2 ''Intro''] \<le> 30 \<and>
   fillRegion TextFlow demo 30 100 0 [mkHeading ''Intro'' False, mkPara ''a b'' False 2]
     = ([], 0, [mkHeading ''Intro'' False, mkPara ''a b'' False 2]) \<and>
   flowRegions TextFlow demo [mkHeading ''Intro'' False, mkPara ''a b'' False 2]
       [mkRegion 30, mkRegion 300]
     = ([[], [[HeadingEl 2 ''Intro''], [ParagraphEl ''a b'']]], []) \<and>
   measureHeight demo 100 [HeadingEl 2 ''Intro''] \<le> 60 \<and>
   fillRegion TextFlow demo 60 100 0 [mkHeading ''Intro'' True, mkPara ''a b c d'' False 2]
     = ([], 0, [mkHeading ''Intro'' True, mkPara ''a b c d'' False 2])"
proof -
  let ?h = "mkHeading ''Intro'' False"
  let ?p = "mkPara ''a b'' False 2"
  let ?k = "mkHeading ''Intro'' True"
  let ?p4 = "mkPara ''a b c d'' False 2"
  let ?r = "mkRegion 30"
  have f: "flow TextFlow demo [?h, ?p] [?r, mkRegion 300]
      = Some ([[], [[HeadingEl 2 ''Intro''], [ParagraphEl ''a b'']]], [])"
    by code_simp
  have c: "btype ?h = Heading \<and> \<not> (TextFlow = TextFlow \<and> keepWithNext ?h \<and> [?p] \<noteq> []) \<and>
      \<not> measureHeight demo (innerWidth ?r) [createHeading (level ?h) (btext ?h)]
          \<le> availableHeight ?r - 0"
    by code_simp
  have m: "\<not> measureHeight demo 100 [HeadingEl 2 ''Intro''] \<le> 30" by code_simp
  have m60: "measureHeight demo 100 [HeadingEl 2 ''Intro''] \<le> 60" by code_simp
  have g: "[mkRegion 300] \<noteq> [] \<and>
      flowRegions TextFlow demo [?h, ?p] [mkRegion 300]
        = ([[[HeadingEl 2 ''Intro''], [ParagraphEl ''a b'']]], [])"
    by code_simp
  have ck: "btype ?k = Heading \<and> keepWithNext ?k \<and> [?p4] \<noteq> [] \<and>
      \<not> measureHeight demo 100
           [createHeading (level ?k) (btext ?k), elFactory (hd [?p4]) (btext (hd [?p4]))]
          \<le> 60 - 0"
    by code_simp
  have rg: "availableHeight ?r = 30" "innerWidth ?r = 100" by (simp_all add: mkRegion_def)
  note t = heading_atomicity[of TextFlow demo "[?h, ?p]" "[?r, mkRegion 300]"
      "[[], [[HeadingEl 2 ''Intro''], [ParagraphEl ''a b'']]]" "[]" ?h "[?p]"
      "innerWidth ?r" "availableHeight ?r" 0 ?r "[mkRegion 300]"]
  have c1: "filter isHeadingEl (concat (concat [[], [[HeadingEl 2 ''Intro''], [ParagraphEl ''a b'']]]))
      @ headingsOf [] = headingsOf [?h, ?p]"
    using t f by blast
  have c2: "fillRegion TextFlow demo (availableHeight ?r) (innerWidth ?r) 0 [?h, ?p]
      = ([], 0, [?h, ?p])"
    using t c by blast
  have c4: "flowRegions TextFlow demo [?h, ?p] [?r, mkRegion 300] =
      (case flowRegions TextFlow demo [?h, ?p] [mkRegion 300] of (out', q') \<Rightarrow> ([] # out', q'))"
    using t c2 by blast
  have c4': "flowRegions TextFlow demo [?h, ?p] [?r, mkRegion 300]
      = ([[], [[HeadingEl 2 ''Intro''], [ParagraphEl ''a b'']]], [])"
    unfolding c4 using g by simp
  note tk = heading_atomicity[of TextFlow demo "[?h, ?p]" "[?r, mkRegion 300]"
      "[[], [[HeadingEl 2 ''Intro''], [ParagraphEl ''a b'']]]" "[]" ?k "[?p4]"
      100 60 0 ?r "[mkRegion 300]"]
  have c3: "fillRegion TextFlow demo 60 100 0 [?k, ?p4] = ([], 0, [?k, ?p4])"
    using tk ck by blast
  show ?thesis
    using f c1 m c2[unfolded rg] c4' m60 c3 by blast
qed

section \<open>C6: order is preserved\<close>




section \<open>C3: the split takes the longest fitting prefix\<close>

lemma maxFittingWords_local:
  assumes "best = lo - 1" and "lo \<le> hi + 1"
    and "best = 0 \<or> rectHeight orc w (setTextContent mp (join_sp (take (nat best) ws))) \<le> avail"
    and "hi = n \<or> \<not> rectHeight orc w (setTextContent mp (join_sp (take (nat (hi + 1)) ws))) \<le> avail"
  shows "(maxFittingWords orc w mp ws avail lo hi best = 0 \<or>
          rectHeight orc w (setTextContent mp
            (join_sp (take (nat (maxFittingWords orc w mp ws avail lo hi best)) ws))) \<le> avail) \<and>
         (maxFittingWords orc w mp ws avail lo hi best = n \<or>
          \<not> rectHeight orc w (setTextContent mp
            (join_sp (take (nat (maxFittingWords orc w mp ws avail lo hi best + 1)) ws))) \<le> avail)"
  using assms
proof (induction orc w mp ws avail lo hi best rule: maxFittingWords.induct)
  case (1 orc w measureP ws avail lo hi best)
  show ?case
  proof (cases "lo \<le> hi")
    case False
    then have r: "maxFittingWords orc w measureP ws avail lo hi best = best"
      by (simp add: maxFittingWords.simps)
    from False "1.prems"(1,2) have "best = hi" by simp
    then show ?thesis using "1.prems"(3,4) unfolding r by simp
  next
    case True
    define mid where "mid = (lo + hi) div 2"
    have m: "lo \<le> mid" "mid \<le> hi" using True by (auto simp: mid_def)
    show ?thesis
    proof (cases "rectHeight orc w (setTextContent measureP (join_sp (take (nat mid) ws))) \<le> avail")
      case fits: True
      have r: "maxFittingWords orc w measureP ws avail lo hi best
            = maxFittingWords orc w measureP ws avail (mid + 1) hi mid"
        using True fits by (subst maxFittingWords.simps) (simp add: mid_def Let_def)
      have a1: "mid = mid + 1 - 1" by simp
      have a2: "mid + 1 \<le> hi + 1" using m by simp
      have a3: "mid = 0 \<or>
          rectHeight orc w (setTextContent measureP (join_sp (take (nat mid) ws))) \<le> avail"
        using fits by simp
      from "1.IH"(1)[OF True mid_def refl _ a1 a2 a3 "1.prems"(4)] fits
      show ?thesis unfolding r by simp
    next
      case nofit: False
      have r: "maxFittingWords orc w measureP ws avail lo hi best
            = maxFittingWords orc w measureP ws avail lo (mid - 1) best"
        using True nofit by (subst maxFittingWords.simps) (simp add: mid_def Let_def)
      have a2: "lo \<le> mid - 1 + 1" using m by simp
      have a4: "mid - 1 = n \<or>
          \<not> rectHeight orc w (setTextContent measureP (join_sp (take (nat (mid - 1 + 1)) ws)))
              \<le> avail"
        using nofit by simp
      from "1.IH"(2)[OF True mid_def refl _ "1.prems"(1) a2 "1.prems"(3) a4] nofit
      show ?thesis unfolding r by simp
    qed
  qed
qed

lemma splitParagraph_local_max:
  assumes "fitsWords (splitParagraph orc w b avail) \<noteq> 0"
  shows "prefixHeight orc w b (nat (fitsWords (splitParagraph orc w b avail))) \<le> avail"
    and "nat (fitsWords (splitParagraph orc w b avail)) = length (words_of (btext b)) \<or>
         avail < prefixHeight orc w b (Suc (nat (fitsWords (splitParagraph orc w b avail))))"
proof -
  let ?ws = "words_of (btext b)"
  let ?best = "maxFittingWords orc w (elFactory b []) ?ws avail 1 (int (length ?ws)) 0"
  note u = splitParagraph_unfold[OF assms]
  have fw: "fitsWords (splitParagraph orc w b avail) = ?best" by (simp add: u(5))
  note rg = splitParagraph_fits_range[OF assms]
  have l: "(?best = 0 \<or>
          rectHeight orc w (setTextContent (elFactory b []) (join_sp (take (nat ?best) ?ws))) \<le> avail) \<and>
         (?best = int (length ?ws) \<or>
          \<not> rectHeight orc w (setTextContent (elFactory b [])
                (join_sp (take (nat (?best + 1)) ?ws))) \<le> avail)"
    by (rule maxFittingWords_local) simp_all
  show "prefixHeight orc w b (nat (fitsWords (splitParagraph orc w b avail))) \<le> avail"
    using l u(3) unfolding fw prefixHeight_def by simp
  have "nat (?best + 1) = Suc (nat ?best)" using rg(1) unfolding fw by simp
  then show "nat (fitsWords (splitParagraph orc w b avail)) = length (words_of (btext b)) \<or>
         avail < prefixHeight orc w b (Suc (nat (fitsWords (splitParagraph orc w b avail))))"
    using l rg(1) unfolding fw prefixHeight_def by (auto simp: not_le)
qed

text \<open>
Claim C3, as far as it holds, for \<^verbatim>\<open>splitParagraph\<close> of src/js/intro.js.  When the
  split is not rejected (\<open>fitsWords\<close> is not zero) and the probe height of a prefix does
  not decrease as words are added, \<open>fitsWords\<close> is the length of the longest word prefix
  whose probe height is at most the available height: that prefix fits and no longer
  one does.  The fragment is that prefix and the remainder the other words, both joined
  by single spaces, and the words of the fragment followed by the words of the remainder
  are the words of the paragraph.  When the loop places the fragment, the head of the
  queue becomes the same block with the remainder as its text, so its
  \<^verbatim>\<open>keepWithNext\<close> and \<^verbatim>\<open>orphanProtection\<close> are unchanged.

  Without the first condition the claim fails: in the example after the theorem a prefix
  of two words fits into 30 pixels, and the split returns no prefix, because two lines
  of 20 pixels do not fit.
\<close>

theorem split_longest_prefix:
  assumes fits: "fitsWords (splitParagraph orc w b avail) \<noteq> 0"
    and mono: "\<forall>i j. i \<le> j \<and> j \<le> length (words_of (btext b)) \<longrightarrow>
                 prefixHeight orc w b i \<le> prefixHeight orc w b j"
  shows
    "1 \<le> nat (fitsWords (splitParagraph orc w b avail)) \<and>
     nat (fitsWords (splitParagraph orc w b avail)) \<le> length (words_of (btext b)) \<and>
     firstText (splitParagraph orc w b avail)
       = join_sp (take (nat (fitsWords (splitParagraph orc w b avail))) (words_of (btext b))) \<and>
     restText (splitParagraph orc w b avail)
       = join_sp (drop (nat (fitsWords (splitParagraph orc w b avail))) (words_of (btext b))) \<and>
     prefixHeight orc w b (nat (fitsWords (splitParagraph orc w b avail))) \<le> avail \<and>
     (\<forall>k. nat (fitsWords (splitParagraph orc w b avail)) < k \<and> k \<le> length (words_of (btext b))
          \<longrightarrow> avail < prefixHeight orc w b k) \<and>
     words_of (firstText (splitParagraph orc w b avail))
       @ words_of (restText (splitParagraph orc w b avail)) = words_of (btext b) \<and>
     (avail = regionHeight - used \<and> loopBody TextFlow orc w avail b q = PlaceFragment el h rest \<longrightarrow>
        el = ParagraphEl (firstText (splitParagraph orc w b avail)) \<and>
        fillRegion TextFlow orc regionHeight w used (b # q)
          = addPlaced [el]
              (fillRegion TextFlow orc regionHeight w (used + h)
                 (b\<lparr>btext := restText (splitParagraph orc w b avail)\<rparr> # q)) \<and>
        keepWithNext (b\<lparr>btext := restText (splitParagraph orc w b avail)\<rparr>) = keepWithNext b \<and>
        orphanProtection (b\<lparr>btext := restText (splitParagraph orc w b avail)\<rparr>)
          = orphanProtection b)"
proof -
  let ?r = "splitParagraph orc w b avail"
  let ?n = "nat (fitsWords ?r)"
  let ?ws = "words_of (btext b)"
  note rg = splitParagraph_fits_range[OF fits]
  note lm = splitParagraph_local_max[OF fits]
  have n1: "1 \<le> ?n" and n2: "?n \<le> length ?ws" using rg(1,2) by linarith+
  have mx: "\<forall>k. ?n < k \<and> k \<le> length ?ws \<longrightarrow> avail < prefixHeight orc w b k"
  proof (intro allI impI)
    fix k assume k: "?n < k \<and> k \<le> length ?ws"
    then have "?n \<noteq> length ?ws" by simp
    with lm(2) have "avail < prefixHeight orc w b (Suc ?n)" by simp
    moreover have "prefixHeight orc w b (Suc ?n) \<le> prefixHeight orc w b k"
      using mono k by (simp add: Suc_le_eq)
    ultimately show "avail < prefixHeight orc w b k" by simp
  qed
  have wd: "words_of (firstText ?r) @ words_of (restText ?r) = ?ws"
    by (simp add: rg(3,4) words_of_join_take words_of_join_drop)
  have fl: "avail = regionHeight - used \<and> loopBody TextFlow orc w avail b q = PlaceFragment el h rest \<longrightarrow>
        el = ParagraphEl (firstText ?r) \<and>
        fillRegion TextFlow orc regionHeight w used (b # q)
          = addPlaced [el] (fillRegion TextFlow orc regionHeight w (used + h) (b\<lparr>btext := restText ?r\<rparr> # q))"
  proof
    assume a: "avail = regionHeight - used \<and> loopBody TextFlow orc w avail b q = PlaceFragment el h rest"
    from a have av: "avail = regionHeight - used" by (rule conjunct1)
    from a have lb2: "loopBody TextFlow orc w avail b q = PlaceFragment el h rest"
      by (rule conjunct2)
    have lb: "loopBody TextFlow orc w (regionHeight - used) b q = PlaceFragment el h rest"
      using lb2 unfolding av .
    note f = loopBody_PlaceFragment[OF lb2]
    have e1: "el = ParagraphEl (firstText ?r)" using f(3) by (simp add: splitOf_def)
    have e2: "rest = restText ?r" using f(4) by (simp add: splitOf_def)
    have "fillRegion TextFlow orc regionHeight w used (b # q)
          = addPlaced [el] (fillRegion TextFlow orc regionHeight w (used + h) (b\<lparr>btext := rest\<rparr> # q))"
      by (subst fillRegion.simps) (simp add: lb)
    then show "el = ParagraphEl (firstText ?r) \<and>
        fillRegion TextFlow orc regionHeight w used (b # q)
          = addPlaced [el] (fillRegion TextFlow orc regionHeight w (used + h) (b\<lparr>btext := restText ?r\<rparr> # q))"
      using e1 e2 by simp
  qed
  show ?thesis
    using n1 n2 rg(3,4) lm(1) mx wd fl by simp
qed

theorem split_rejects_fitting_prefix:
  "words_of (btext (mkPara ''a b c d e f g'' False 2)) = [''a'', ''b'', ''c'', ''d'', ''e'', ''f'', ''g''] \<and>
   rectHeight demo 100 (ParagraphEl ''a b'') \<le> 30 \<and>
   splitParagraph demo 100 (mkPara ''a b c d e f g'' False 2) 30
     = \<lparr>fitsWords = 0, firstText = [], restText = ''a b c d e f g''\<rparr>"
  by code_simp

lemma demo_prefixHeight:
  "prefixHeight demo w (mkPara t k op) i = 20 * of_nat ((min i (length (words_of t)) + 1) div 2)"
  by (simp add: prefixHeight_def demo_def demoRect_def elFactory_def mkPara_def
      createParagraph_def words_of_join_take min.commute)

lemma demo_prefixHeight_mono:
  "i \<le> j \<Longrightarrow> prefixHeight demo w (mkPara t k op) i \<le> prefixHeight demo w (mkPara t k op) j"
proof -
  assume "i \<le> j"
  then have "(min i (length (words_of t)) + 1) div 2 \<le> (min j (length (words_of t)) + 1) div 2"
    by (intro div_le_mono) simp
  then show ?thesis unfolding demo_prefixHeight by simp
qed

theorem split_longest_prefix_witness:
  "splitParagraph demo 100 (mkPara ''a b c d e f g'' False 2) 50
     = \<lparr>fitsWords = 4, firstText = ''a b c d'', restText = ''e f g''\<rparr> \<and>
   prefixHeight demo 100 (mkPara ''a b c d e f g'' False 2) 4 \<le> 50 \<and>
   50 < prefixHeight demo 100 (mkPara ''a b c d e f g'' False 2) 5 \<and>
   words_of ''a b c d'' @ words_of ''e f g'' = words_of ''a b c d e f g'' \<and>
   fillRegion TextFlow demo 50 100 0 [mkPara ''a b c d e f g'' False 2]
     = ([[ParagraphEl ''a b c d'']], 40, [mkPara ''e f g'' False 2])"
proof -
  let ?b = "mkPara ''a b c d e f g'' False 2"
  have s: "splitParagraph demo 100 ?b 50
     = \<lparr>fitsWords = 4, firstText = ''a b c d'', restText = ''e f g''\<rparr>"
    by code_simp
  have fits: "fitsWords (splitParagraph demo 100 ?b 50) \<noteq> 0" by (simp add: s)
  have mono: "\<forall>i j. i \<le> j \<and> j \<le> length (words_of (btext ?b)) \<longrightarrow>
                 prefixHeight demo 100 ?b i \<le> prefixHeight demo 100 ?b j"
    using demo_prefixHeight_mono by blast
  have lb: "loopBody TextFlow demo 100 50 ?b [] = PlaceFragment (ParagraphEl ''a b c d'') 40 ''e f g''"
    by code_simp
  have av: "(50::rat) = 50 - 0" by simp
  have nx: "fillRegion TextFlow demo 50 100 (0 + 40) [?b\<lparr>btext := ''e f g''\<rparr>]
      = ([], 40, [mkPara ''e f g'' False 2])"
    by code_simp
  have len: "length (words_of (btext ?b)) = 7" by code_simp
  have bt: "btext ?b = ''a b c d e f g''" by (simp add: mkPara_def)
  note t = split_longest_prefix[OF fits mono, where regionHeight = 50 and used = 0 and q = "[]"
      and el = "ParagraphEl ''a b c d''" and h = 40 and rest = "''e f g''"]
  have k5: "50 < prefixHeight demo 100 ?b 5"
    using t len unfolding s by simp
  have k4: "prefixHeight demo 100 ?b 4 \<le> 50"
    using t unfolding s by simp
  have wd: "words_of ''a b c d'' @ words_of ''e f g'' = words_of ''a b c d e f g''"
    by code_simp
  have fr: "fillRegion TextFlow demo 50 100 0 [?b]
      = addPlaced [ParagraphEl ''a b c d'']
          (fillRegion TextFlow demo 50 100 (0 + 40) [?b\<lparr>btext := ''e f g''\<rparr>])"
    using t lb av unfolding s by simp
  show ?thesis
    using s k4 k5 wd fr unfolding nx by (simp add: addPlaced_def)
qed

section \<open>C7: a pass does not change the stored blocks\<close>

lemma copyBlocks_spec:
  assumes "\<forall>a\<in>set as. a < n" and "copyBlocks h n as = (h', n', q)"
  shows "distinct q \<and> (\<forall>x\<in>set q. n \<le> x) \<and> n \<le> n' \<and> (\<forall>a<n. h' a = h a) \<and>
         map h' q = map (\<lambda>a. (h a)\<lparr>btext := btext (h a)\<rparr>) as"
  using assms
proof (induction as arbitrary: h n h' n' q)
  case Nil
  then show ?case by simp
next
  case (Cons a as)
  let ?h1 = "h(n := (h a)\<lparr>btext := btext (h a)\<rparr>)"
  from Cons.prems(2) obtain q1 where
    c: "copyBlocks ?h1 (Suc n) as = (h', n', q1)" and q: "q = n # q1"
    by (auto split: prod.splits)
  have lt: "\<forall>x\<in>set as. x < Suc n" using Cons.prems(1) by auto
  note ih = Cons.IH[OF lt c]
  have d1: "distinct q1" using ih by blast
  have ge: "\<forall>x\<in>set q1. Suc n \<le> x" using ih by blast
  have n': "Suc n \<le> n'" using ih by blast
  have ag: "\<forall>x<Suc n. h' x = ?h1 x" using ih by blast
  have mp: "map h' q1 = map (\<lambda>x. (?h1 x)\<lparr>btext := btext (?h1 x)\<rparr>) as" using ih by blast
  have nin: "n \<notin> set q1" using ge by auto
  have dq: "distinct q" unfolding q using d1 nin by simp
  have gq: "\<forall>x\<in>set q. n \<le> x" unfolding q using ge by auto
  have same: "map (\<lambda>x. (?h1 x)\<lparr>btext := btext (?h1 x)\<rparr>) as
        = map (\<lambda>x. (h x)\<lparr>btext := btext (h x)\<rparr>) as"
    using Cons.prems(1) by (intro map_cong) auto
  have hn: "h' n = (h a)\<lparr>btext := btext (h a)\<rparr>" using ag by simp
  have below: "\<forall>x<n. h' x = h x" using ag by simp
  have mq: "map h' q = map (\<lambda>x. (h x)\<lparr>btext := btext (h x)\<rparr>) (a # as)"
    unfolding q using hn mp same by simp
  have "n \<le> n'" using n' by simp
  then show ?case using dq gq below mq by blast
qed

lemma fillRegionRef_sim:
  assumes "distinct qr" and "fillRegionRef e orc avail w used h qr = (ps, u, h', qr')"
  shows "fillRegion e orc avail w used (map h qr) = (ps, u, map h' qr') \<and>
         distinct qr' \<and> set qr' \<subseteq> set qr \<and> (\<forall>a. a \<notin> set qr \<longrightarrow> h' a = h a)"
  using assms
proof (induction e orc avail w used h qr arbitrary: ps u h' qr' rule: fillRegionRef.induct)
  case (1 e orc avail w used h)
  then show ?case by (simp add: fillRegionRef.simps fillRegion.simps)
next
  case (2 e orc avail w used h a q)
  have da: "a \<notin> set q" and dq: "distinct q" using "2.prems"(1) by simp_all
  show ?case
  proof (cases "loopBody e orc w (avail - used) (h a) (map h q)")
    case (PlacePair elA elB ht)
    then obtain ps1 where
      r: "fillRegionRef e orc avail w (used + ht) h (tl q) = (ps1, u, h', qr')"
      and ps: "ps = [elA, elB] # ps1"
      using "2.prems"(2)
      by (auto simp: fillRegionRef.simps addPlacedRef_def split: prod.splits)
    have dt: "distinct (tl q)" using dq by (rule distinct_tl)
    note ih1 = "2.IH"(1)[OF PlacePair dt r]
    have f: "fillRegion e orc avail w (used + ht) (map h (tl q)) = (ps1, u, map h' qr')" using ih1 by blast
    have d: "distinct qr'" using ih1 by blast
    have s: "set qr' \<subseteq> set (tl q)" using ih1 by blast
    have ag: "\<forall>x. x \<notin> set (tl q) \<longrightarrow> h' x = h x" using ih1 by blast
    have st: "set (tl q) \<subseteq> set q" by (cases q) auto
    have "fillRegion e orc avail w used (map h (a # q)) = (ps, u, map h' qr')"
      using PlacePair f by (simp add: fillRegion.simps addPlaced_def ps map_tl)
    then show ?thesis using d s st ag by auto
  next
    case (PlaceSingle el ht)
    then obtain ps1 where
      r: "fillRegionRef e orc avail w (used + ht) h q = (ps1, u, h', qr')"
      and ps: "ps = [el] # ps1"
      using "2.prems"(2)
      by (auto simp: fillRegionRef.simps addPlacedRef_def split: prod.splits)
    note ih2 = "2.IH"(2)[OF PlaceSingle dq r]
    have f: "fillRegion e orc avail w (used + ht) (map h q) = (ps1, u, map h' qr')" using ih2 by blast
    have d: "distinct qr'" using ih2 by blast
    have s: "set qr' \<subseteq> set q" using ih2 by blast
    have ag: "\<forall>x. x \<notin> set q \<longrightarrow> h' x = h x" using ih2 by blast
    have "fillRegion e orc avail w used (map h (a # q)) = (ps, u, map h' qr')"
      using PlaceSingle f by (simp add: fillRegion.simps addPlaced_def ps)
    then show ?thesis using d s ag by auto
  next
    case (PlaceFragment el ht rest)
    let ?h1 = "h(a := (h a)\<lparr>btext := rest\<rparr>)"
    from PlaceFragment obtain ps1 where
      r: "fillRegionRef e orc avail w (used + ht) ?h1 (a # q) = (ps1, u, h', qr')"
      and ps: "ps = [el] # ps1"
      using "2.prems"(2)
      by (auto simp: fillRegionRef.simps addPlacedRef_def split: prod.splits)
    note ih3 = "2.IH"(3)[OF PlaceFragment "2.prems"(1) r]
    have f: "fillRegion e orc avail w (used + ht) (map ?h1 (a # q)) = (ps1, u, map h' qr')" using ih3 by blast
    have d: "distinct qr'" using ih3 by blast
    have s: "set qr' \<subseteq> set (a # q)" using ih3 by blast
    have ag: "\<forall>x. x \<notin> set (a # q) \<longrightarrow> h' x = ?h1 x" using ih3 by blast
    have m: "map ?h1 (a # q) = (h a)\<lparr>btext := rest\<rparr> # map h q"
      using da by (simp add: map_idI cong: map_cong)
    have "fillRegion e orc avail w used (map h (a # q)) = (ps, u, map h' qr')"
      using PlaceFragment f unfolding m by (simp add: fillRegion.simps addPlaced_def ps)
    then show ?thesis using d s ag by auto
  next
    case Abandon
    then have "ps = []" "u = used" "h' = h" "qr' = a # q"
      using "2.prems"(2) by (simp_all add: fillRegionRef.simps)
    then show ?thesis using Abandon "2.prems"(1) by (simp add: fillRegion.simps)
  qed
qed

lemma flowRegionsRef_sim:
  assumes "distinct qr" and "flowRegionsRef e orc h qr rs = (out, h', qr')"
  shows "flowRegions e orc (map h qr) rs = (out, map h' qr') \<and>
         (\<forall>a. a \<notin> set qr \<longrightarrow> h' a = h a)"
  using assms
proof (induction rs arbitrary: h qr out)
  case Nil
  then show ?case by simp
next
  case (Cons r rs)
  show ?case
  proof (cases "(e = TextFlow \<and> \<not> wrap r) \<or> availableHeight r \<le> 0 \<or> innerWidth r \<le> 0")
    case True
    then obtain out1 where r1: "flowRegionsRef e orc h qr rs = (out1, h', qr')"
      and o: "out = [] # out1"
      using Cons.prems(2) by (auto split: prod.splits if_splits)
    from Cons.IH[OF Cons.prems(1) r1] True show ?thesis unfolding o by auto
  next
    case False
    then obtain placed used h1 q1 out1 where
      f: "fillRegionRef e orc (availableHeight r) (innerWidth r) 0 h qr = (placed, used, h1, q1)"
      and r1: "flowRegionsRef e orc h1 q1 rs = (out1, h', qr')" and o: "out = placed # out1"
      using Cons.prems(2) by (auto split: prod.splits if_splits)
    note ih4 = fillRegionRef_sim[OF Cons.prems(1) f]
    have pf: "fillRegion e orc (availableHeight r) (innerWidth r) 0 (map h qr) = (placed, used, map h1 q1)" using ih4 by blast
    have d: "distinct q1" using ih4 by blast
    have s: "set q1 \<subseteq> set qr" using ih4 by blast
    have ag: "\<forall>a. a \<notin> set qr \<longrightarrow> h1 a = h a" using ih4 by blast
    note ih5 = Cons.IH[OF d r1]
    have fr: "flowRegions e orc (map h1 q1) rs = (out1, map h' qr')" using ih5 by blast
    have ag2: "\<forall>a. a \<notin> set q1 \<longrightarrow> h' a = h1 a" using ih5 by blast
    have "flowRegions e orc (map h qr) (r # rs) = (out, map h' qr')"
      using False pf fr by (auto simp: o)
    moreover have "\<forall>a. a \<notin> set qr \<longrightarrow> h' a = h a"
      using ag ag2 s by auto
    ultimately show ?thesis by simp
  qed
qed

lemma flowRef_spec:
  assumes wf: "\<forall>a\<in>set (this_blocks tf). a < nextRef tf"
  shows "snd (flowRef e orc tf regions) = flow e orc (map (heap tf) (this_blocks tf)) regions \<and>
         this_blocks (fst (flowRef e orc tf regions)) = this_blocks tf \<and>
         (\<forall>a<nextRef tf. heap (fst (flowRef e orc tf regions)) a = heap tf a) \<and>
         nextRef tf \<le> nextRef (fst (flowRef e orc tf regions))"
proof (cases "this_blocks tf = [] \<or> regions = []")
  case True
  then show ?thesis by (auto simp: flowRef_def flow_def)
next
  case False
  obtain h1 n1 queue where c: "copyBlocks (heap tf) (nextRef tf) (this_blocks tf) = (h1, n1, queue)"
    by (cases "copyBlocks (heap tf) (nextRef tf) (this_blocks tf)") auto
  obtain out h2 q' where r: "flowRegionsRef e orc h1 queue regions = (out, h2, q')"
    by (cases "flowRegionsRef e orc h1 queue regions") auto
  note cs = copyBlocks_spec[OF wf c]
  have d: "distinct queue" using cs by blast
  have ge: "\<forall>x\<in>set queue. nextRef tf \<le> x" using cs by blast
  have n1: "nextRef tf \<le> n1" using cs by blast
  have ag1: "\<forall>a<nextRef tf. h1 a = heap tf a" using cs by blast
  have mq: "map h1 queue = map (\<lambda>a. (heap tf a)\<lparr>btext := btext (heap tf a)\<rparr>) (this_blocks tf)"
    using cs by blast
  note fs = flowRegionsRef_sim[OF d r]
  have fr: "flowRegions e orc (map h1 queue) regions = (out, map h2 q')" using fs by blast
  have ag2: "\<forall>a. a \<notin> set queue \<longrightarrow> h2 a = h1 a" using fs by blast
  have res: "flowRef e orc tf regions = (tf\<lparr>heap := h2, nextRef := n1\<rparr>, Some (out, map h2 q'))"
    using False c r by (simp add: flowRef_def)
  have cp: "map (\<lambda>b. b\<lparr>btext := btext b\<rparr>) (map (heap tf) (this_blocks tf)) = map h1 queue"
    unfolding mq by (simp add: comp_def)
  have ne: "map (heap tf) (this_blocks tf) \<noteq> []" using False by simp
  have a: "snd (flowRef e orc tf regions) = flow e orc (map (heap tf) (this_blocks tf)) regions"
    unfolding res flow_def cp using False fr by simp
  have b: "\<forall>a<nextRef tf. heap (fst (flowRef e orc tf regions)) a = heap tf a"
  proof (intro allI impI)
    fix a assume lt: "a < nextRef tf"
    then have "a \<notin> set queue" using ge by auto
    then have "h2 a = h1 a" using ag2 by blast
    then show "heap (fst (flowRef e orc tf regions)) a = heap tf a"
      unfolding res using ag1 lt by simp
  qed
  show ?thesis using a b n1 unfolding res by simp
qed

text \<open>
  Claim C7, for both engines.  \<open>flowRef\<close> is \<^verbatim>\<open>flow()\<close> with the block objects in a
  store: \<^verbatim>\<open>this.blocks\<close> is a list of references, the queue is a list of references to
  fresh copies, and \<^verbatim>\<open>block.text = restText\<close> writes to the object that the head of the
  queue refers to.  For a TextFlow object whose blocks are allocated objects: what a
  pass places and leaves in the queue is what \<open>flow\<close> computes from the values of the
  stored blocks; the pass leaves \<^verbatim>\<open>this.blocks\<close> and every object it refers to as they
  were, so a paragraph that the pass split still has its full text; and a second pass
  with the same layout and regions places and leaves exactly what the first did.
\<close>

theorem flow_pass_idempotent:
  assumes "\<forall>a\<in>set (this_blocks tf). a < nextRef tf"
  shows "snd (flowRef e orc tf regions) = flow e orc (map (heap tf) (this_blocks tf)) regions \<and>
         this_blocks (fst (flowRef e orc tf regions)) = this_blocks tf \<and>
         map (heap (fst (flowRef e orc tf regions))) (this_blocks tf)
           = map (heap tf) (this_blocks tf) \<and>
         snd (flowRef e orc (fst (flowRef e orc tf regions)) regions)
           = snd (flowRef e orc tf regions)"
proof -
  let ?tf' = "fst (flowRef e orc tf regions)"
  note s1 = flowRef_spec[OF assms, of e orc regions]
  have r1: "snd (flowRef e orc tf regions) = flow e orc (map (heap tf) (this_blocks tf)) regions"
    using s1 by blast
  have b1: "this_blocks ?tf' = this_blocks tf" using s1 by blast
  have ag: "\<forall>a<nextRef tf. heap ?tf' a = heap tf a" using s1 by blast
  have nx: "nextRef tf \<le> nextRef ?tf'" using s1 by blast
  have same: "map (heap ?tf') (this_blocks tf) = map (heap tf) (this_blocks tf)"
    using ag assms by (intro map_cong) auto
  have wf': "\<forall>a\<in>set (this_blocks ?tf'). a < nextRef ?tf'"
    unfolding b1 using assms nx by auto
  note s2 = flowRef_spec[OF wf', of e orc regions]
  have "snd (flowRef e orc ?tf' regions) = flow e orc (map (heap ?tf') (this_blocks ?tf')) regions"
    using s2 by blast
  then have r2: "snd (flowRef e orc ?tf' regions) = snd (flowRef e orc tf regions)"
    unfolding b1 same r1 .
  show ?thesis using r1 b1 same r2 by blast
qed

theorem flow_pass_idempotent_witness:
  "snd (flowRef TextFlow demo demoState [mkRegion 90, mkRegion 300])
     = Some ([[[HeadingEl 2 ''Intro''], [ParagraphEl ''a b c d'']],
              [[ParagraphEl ''e f g h i j'']]], []) \<and>
   map (heap (fst (flowRef TextFlow demo demoState [mkRegion 90, mkRegion 300]))) [0, 1]
     = [mkHeading ''Intro'' False, mkPara ''a b c d e f g h i j'' False 2] \<and>
   snd (flowRef TextFlow demo
          (fst (flowRef TextFlow demo demoState [mkRegion 90, mkRegion 300]))
          [mkRegion 90, mkRegion 300])
     = Some ([[[HeadingEl 2 ''Intro''], [ParagraphEl ''a b c d'']],
              [[ParagraphEl ''e f g h i j'']]], [])"
proof -
  have wf: "\<forall>a\<in>set (this_blocks demoState). a < nextRef demoState"
    by (simp add: demoState_def)
  have bl: "this_blocks demoState = [0, 1]" by (simp add: demoState_def)
  have hp: "map (heap demoState) [0, 1]
      = [mkHeading ''Intro'' False, mkPara ''a b c d e f g h i j'' False 2]"
    by (simp add: demoState_def)
  have fl: "flow TextFlow demo [mkHeading ''Intro'' False, mkPara ''a b c d e f g h i j'' False 2]
        [mkRegion 90, mkRegion 300]
      = Some ([[[HeadingEl 2 ''Intro''], [ParagraphEl ''a b c d'']],
               [[ParagraphEl ''e f g h i j'']]], [])"
    by code_simp
  from flow_pass_idempotent[OF wf, of TextFlow demo "[mkRegion 90, mkRegion 300]"]
  show ?thesis unfolding bl hp fl by simp
qed

end
